theory Spec2Isabelle
  imports Complex_Main "HOL-Library.Word" "HOL-Library.Sublist"
begin

section \<open>Paths\<close>

text \<open>
  A \<^verbatim>\<open>pathlib.Path\<close> is modelled by its list of components; the last component is
  the \<^verbatim>\<open>name\<close>. \<^verbatim>\<open>suffix\<close> and \<^verbatim>\<open>stem\<close> follow the library's definition
  (Python 3.8 to 3.13): with \<^verbatim>\<open>i = name.rfind('.')\<close>, the suffix is \<^verbatim>\<open>name[i:]\<close> and the
  stem is \<^verbatim>\<open>name[:i]\<close> when \<^verbatim>\<open>0 < i < len(name) - 1\<close>; otherwise the suffix is empty
  and the stem is the whole name. Strings are byte strings and \<^verbatim>\<open>str.lower\<close> is modelled
  on the ASCII letters.
\<close>

type_synonym path = "string list"

definition name :: "path \<Rightarrow> string" where
  "name p = (if p = [] then [] else last p)"

fun rfind :: "'a \<Rightarrow> 'a list \<Rightarrow> nat option" where
  "rfind c [] = None"
| "rfind c (x # xs) =
     (case rfind c xs of
        Some i \<Rightarrow> Some (Suc i)
      | None \<Rightarrow> if x = c then Some 0 else None)"

definition suffix_of :: "path \<Rightarrow> string" where
  "suffix_of p =
     (let n = name p in
      case rfind (CHR ''.'') n of
        Some i \<Rightarrow> if 0 < i \<and> i < length n - 1 then drop i n else []
      | None \<Rightarrow> [])"

definition stem :: "path \<Rightarrow> string" where
  "stem p =
     (let n = name p in
      case rfind (CHR ''.'') n of
        Some i \<Rightarrow> if 0 < i \<and> i < length n - 1 then take i n else n
      | None \<Rightarrow> n)"

definition lower_char :: "char \<Rightarrow> char" where
  "lower_char c =
     (let k = (of_char c :: nat) in if 65 \<le> k \<and> k \<le> 90 then char_of (k + 32) else c)"

definition lower :: "string \<Rightarrow> string" where
  "lower s = map lower_char s"

definition SUPPORTED_EXTS :: "string set" where
  "SUPPORTED_EXTS = {''.png'', ''.jpg'', ''.jpeg'', ''.webp'', ''.bmp'', ''.tiff'', ''.tif''}"

definition supported :: "path \<Rightarrow> bool" where
  \<comment> \<open>\<^verbatim>\<open>p.suffix.lower() in SUPPORTED_EXTS\<close>\<close>
  "supported p = (lower (suffix_of p) \<in> SUPPORTED_EXTS)"

section \<open>The file system as the input collector sees it\<close>

text \<open>
  The collector only asks for kinds (\<^verbatim>\<open>is_file\<close>, \<^verbatim>\<open>is_dir\<close>) and for the recursive
  listing \<^verbatim>\<open>folder.rglob("*")\<close>. The file system is a tree; a directory holds its entries
  in the order the operating system lists them. \<^verbatim>\<open>rglob("*")\<close> yields every entry below
  the folder, files and directories alike, never the folder itself; the order modelled is
  the one of Python up to 3.12: the entries of a directory first, then the contents of its
  subdirectories, one after the other. A path that does not resolve is neither a file nor a
  directory, and its listing is empty.
\<close>

datatype node = File | Dir "(string \<times> node) list"

fun lookup :: "node \<Rightarrow> path \<Rightarrow> node option" where
  "lookup n [] = Some n"
| "lookup File (c # cs) = None"
| "lookup (Dir es) (c # cs) =
     (case map_of es c of None \<Rightarrow> None | Some n \<Rightarrow> lookup n cs)"

definition is_file :: "node \<Rightarrow> path \<Rightarrow> bool" where
  "is_file fs p = (case lookup fs p of Some File \<Rightarrow> True | _ \<Rightarrow> False)"

definition is_dir :: "node \<Rightarrow> path \<Rightarrow> bool" where
  "is_dir fs p = (case lookup fs p of Some (Dir es) \<Rightarrow> True | _ \<Rightarrow> False)"

fun rglob_node :: "path \<Rightarrow> node \<Rightarrow> path list" where
  "rglob_node p File = []"
| "rglob_node p (Dir es) =
     map (\<lambda>e. p @ [fst e]) es @ concat (map (\<lambda>e. rglob_node (p @ [fst e]) (snd e)) es)"

definition rglob :: "node \<Rightarrow> path \<Rightarrow> path list" where
  "rglob fs folder =
     (case lookup fs folder of Some (Dir es) \<Rightarrow> rglob_node folder (Dir es) | _ \<Rightarrow> [])"

fun wf_node :: "node \<Rightarrow> bool" where
  \<comment> \<open>the names in one directory are pairwise different\<close>
  "wf_node File = True"
| "wf_node (Dir es) = (distinct (map fst es) \<and> list_all (\<lambda>e. wf_node (snd e)) es)"

section \<open>Input collector\<close>

text \<open>
  \<^verbatim>\<open>iter_images_in_dir\<close> is the same function in both versions of the program:
  \<^verbatim>\<open>for p in folder.rglob("*"): if p.suffix.lower() in SUPPORTED_EXTS: yield p\<close>.
\<close>

definition iter_images_in_dir :: "node \<Rightarrow> path \<Rightarrow> path list" where
  "iter_images_in_dir fs folder = filter supported (rglob fs folder)"

section \<open>Application state\<close>

text \<open>
  Both classes (\<^verbatim>\<open>App\<close> and \<^verbatim>\<open>NoBackApp\<close>) keep \<^verbatim>\<open>input_paths\<close>, \<^verbatim>\<open>output_dir\<close>, a log
  widget and a progress bar. The log widget is the list of the lines appended to it, each
  line a constructor for one message of the source. The warning dialogs are recorded as
  well. The progress bar of \<^verbatim>\<open>App\<close> is a \<^verbatim>\<open>ttk.Progressbar\<close>: its \<^verbatim>\<open>maximum\<close> and every
  \<^verbatim>\<open>value\<close> it was given, in order. The progress bar of \<^verbatim>\<open>NoBackApp\<close> is drawn by
  \<^verbatim>\<open>set_progress(fraction)\<close>: every fraction it was called with, in order, and the width
  of the bar. Python's true division \<^verbatim>\<open>idx / total\<close> is modelled by the exact quotient;
  the percentage label, which rounds a float, is left out.
\<close>

datatype error = MkdirError | OpenError | TransformError | SaveError

datatype log_line =
    Selected nat \<comment> \<open>"n arquivo(s) selecionado(s)."\<close>
  | Found nat \<comment> \<open>"n arquivo(s) encontrados na pasta."\<close>
  | OutputDir path \<comment> \<open>"Pasta de saida: ..."\<close>
  | Dropped nat \<comment> \<open>"n arquivo(s) carregados por arrastar e soltar."\<close>
  | Starting nat \<comment> \<open>"Iniciando processamento de n arquivos..."\<close>
  | ToProcess nat \<comment> \<open>"n arquivo(s) a processar."\<close>
  | Processing string \<comment> \<open>"Processando: name ..."\<close>
  | Success string string \<comment> \<open>the line with the input's name and the output's name\<close>
  | Failure string error \<comment> \<open>"Erro em name: e"\<close>
  | Finished \<comment> \<open>"Concluido!"\<close>

datatype warning = NoInput | NoOutput

record app =
  input_paths :: "path list"
  output_dir :: "path option"
  log :: "log_line list"
  warnings :: "warning list"
  pb_maximum :: nat
  pb_values :: "nat list"
  progress_calls :: "rat list"
  pb_bar :: rat

definition append_log :: "log_line \<Rightarrow> app \<Rightarrow> app" where
  "append_log l a = a\<lparr>log := log a @ [l]\<rparr>"

definition pb_w :: rat where
  "pb_w = 760 - 24"

definition set_progress :: "rat \<Rightarrow> app \<Rightarrow> app" where
  "set_progress fraction a =
     a\<lparr>progress_calls := progress_calls a @ [fraction],
       pb_bar := max 0 (min 1 fraction) * pb_w\<rparr>"

subsection \<open>The three ways to select the inputs\<close>

text \<open>
  The dialogs and the drag-and-drop delivery belong to the toolkit: \<^verbatim>\<open>choose_files\<close>
  receives the tuple of chosen files (empty when cancelled), \<^verbatim>\<open>choose_folder\<close> and
  \<^verbatim>\<open>choose_output\<close> the chosen folder (\<open>None\<close> when cancelled), \<^verbatim>\<open>on_drop\<close> the paths
  of the drop event after \<^verbatim>\<open>splitlist\<close>. The body of \<^verbatim>\<open>on_drop\<close> after \<^verbatim>\<open>splitlist\<close> is the
  same in both versions.
\<close>

definition choose_files :: "path list \<Rightarrow> app \<Rightarrow> app" where
  "choose_files files a =
     (if files \<noteq> [] then append_log (Selected (length files)) (a\<lparr>input_paths := files\<rparr>)
      else a)"

definition choose_folder :: "node \<Rightarrow> path option \<Rightarrow> app \<Rightarrow> app" where
  "choose_folder fs folder a =
     (case folder of
        None \<Rightarrow> a
      | Some f \<Rightarrow>
          (let a' = a\<lparr>input_paths := iter_images_in_dir fs f\<rparr>
           in append_log (Found (length (input_paths a'))) a'))"

definition choose_output :: "path option \<Rightarrow> app \<Rightarrow> app" where
  "choose_output folder a =
     (case folder of
        None \<Rightarrow> a
      | Some f \<Rightarrow> append_log (OutputDir f) (a\<lparr>output_dir := Some f\<rparr>))"

fun drop_loop :: "node \<Rightarrow> path list \<Rightarrow> path list \<Rightarrow> path list" where
  "drop_loop fs [] all_files = all_files"
| "drop_loop fs (p # paths) all_files =
     drop_loop fs paths
       (if is_file fs p \<and> supported p then all_files @ [p]
        else if is_dir fs p then all_files @ iter_images_in_dir fs p
        else all_files)"

definition on_drop :: "node \<Rightarrow> path list \<Rightarrow> app \<Rightarrow> app" where
  "on_drop fs paths a =
     (let all_files = drop_loop fs paths []
      in if all_files \<noteq> []
         then append_log (Dropped (length all_files)) (a\<lparr>input_paths := all_files\<rparr>)
         else a)"

definition unnested :: "path list \<Rightarrow> bool" where
  \<comment> \<open>no path is given twice and none lies below another one\<close>
  "unnested ps = (distinct ps \<and> list_all (\<lambda>p. list_all (\<lambda>q. p = q \<or> \<not> prefix p q) ps) ps)"

definition app0 :: app where
  \<comment> \<open>the state \<^verbatim>\<open>App.__init__\<close> sets up\<close>
  "app0 = \<lparr>input_paths = [], output_dir = None, log = [], warnings = [],
            pb_maximum = 100, pb_values = [], progress_calls = [], pb_bar = 0\<rparr>"

definition expand :: "node \<Rightarrow> path \<Rightarrow> path list" where
  \<comment> \<open>what one entry of a drop payload contributes: one pass of the loop of \<^verbatim>\<open>on_drop\<close>\<close>
  "expand fs p =
     (if is_file fs p \<and> supported p then [p]
      else if is_dir fs p then iter_images_in_dir fs p
      else [])"

section \<open>Images\<close>

text \<open>
  An RGBA image, as \<^verbatim>\<open>Image.open(...).convert("RGBA")\<close> and \<^verbatim>\<open>rembg.remove\<close> return it: its
  size and its pixels. \<^verbatim>\<open>getbbox\<close> and \<^verbatim>\<open>crop\<close> are Pillow's: on an image with an alpha
  channel \<^verbatim>\<open>getbbox()\<close> returns the box \<^verbatim>\<open>(left, upper, right, lower)\<close> around the pixels whose
  alpha is not zero, right and lower bounds excluded, or \<^verbatim>\<open>None\<close> when there is no such
  pixel; \<^verbatim>\<open>crop(box)\<close> returns the region of the box.
\<close>

type_synonym rgba = "8 word \<times> 8 word \<times> 8 word \<times> 8 word"

record image =
  width :: nat
  height :: nat
  pixel :: "nat \<Rightarrow> nat \<Rightarrow> rgba"

definition alpha :: "rgba \<Rightarrow> 8 word" where
  "alpha c = snd (snd (snd c))"

definition visible :: "image \<Rightarrow> nat \<Rightarrow> nat \<Rightarrow> bool" where
  "visible im x y = (alpha (pixel im x y) \<noteq> 0)"

definition visible_points :: "image \<Rightarrow> (nat \<times> nat) list" where
  "visible_points im = [(x, y). y \<leftarrow> [0..<height im], x \<leftarrow> [0..<width im], visible im x y]"

definition getbbox :: "image \<Rightarrow> (nat \<times> nat \<times> nat \<times> nat) option" where
  "getbbox im =
     (let ps = visible_points im in
      if ps = [] then None
      else Some (Min (set (map fst ps)), Min (set (map snd ps)),
                 Max (set (map fst ps)) + 1, Max (set (map snd ps)) + 1))"

definition crop :: "image \<Rightarrow> nat \<times> nat \<times> nat \<times> nat \<Rightarrow> image" where
  "crop im box =
     (case box of (l, u, r, d) \<Rightarrow>
        \<lparr>width = r - l, height = d - u, pixel = (\<lambda>x y. pixel im (x + l) (y + u))\<rparr>)"

definition occupies :: "image \<Rightarrow> nat \<times> nat \<times> nat \<times> nat \<Rightarrow> bool" where
  \<comment> \<open>the box is the smallest one around the pixels that are not fully transparent: it
      lies in the canvas, holds all of them, and each of its four sides meets one\<close>
  "occupies im box =
     (case box of (l, u, r, d) \<Rightarrow>
        l < r \<and> r \<le> width im \<and> u < d \<and> d \<le> height im \<and>
        (\<forall>x<width im. \<forall>y<height im. visible im x y \<longrightarrow> l \<le> x \<and> x < r \<and> u \<le> y \<and> y < d) \<and>
        (\<exists>y<height im. visible im l y) \<and> (\<exists>y<height im. visible im (r - 1) y) \<and>
        (\<exists>x<width im. visible im x u) \<and> (\<exists>x<width im. visible im x (d - 1)))"

section \<open>The files the batch processor reads and writes\<close>

text \<open>
  The processor opens input files, creates the output directory and writes output
  files, all by path. The world holds the directories that exist and the regular files
  with their contents, so that an output written by one item is what a later item reads at
  that path. A file either decodes to an image or does not. What the operating system
  allows (creating one directory, writing a file) and the external transform
  \<^verbatim>\<open>rembg.remove\<close>, which may raise, are parameters. Every exception of the source is a
  value of \<open>error\<close>.
\<close>

datatype filedata = Picture image | Junk

record world =
  dirs :: "path set"
  files :: "path \<Rightarrow> filedata option"

record env =
  rembg_remove :: "image \<Rightarrow> image option"
  may_mkdir :: "path \<Rightarrow> bool"
  may_write :: "path \<Rightarrow> bool"

datatype os_error = FileNotFound | OtherOSError

definition dir_exists :: "world \<Rightarrow> path \<Rightarrow> bool" where
  \<comment> \<open>\<^verbatim>\<open>self.is_dir()\<close>; the empty path is the root, which is always there\<close>
  "dir_exists w d = (d = [] \<or> d \<in> dirs w)"

definition os_mkdir :: "env \<Rightarrow> path \<Rightarrow> world \<Rightarrow> os_error + world" where
  \<comment> \<open>\<^verbatim>\<open>os.mkdir(self)\<close>: \<^verbatim>\<open>FileNotFoundError\<close> when the parent is missing, another
      \<^verbatim>\<open>OSError\<close> when the path exists, the parent is a file or the system refuses\<close>
  "os_mkdir env d w =
     (if dir_exists w d \<or> files w d \<noteq> None then Inl OtherOSError
      else if \<not> dir_exists w (butlast d) then
        (if files w (butlast d) \<noteq> None then Inl OtherOSError else Inl FileNotFound)
      else if may_mkdir env d then Inr (w\<lparr>dirs := insert d (dirs w)\<rparr>)
      else Inl OtherOSError)"

definition mkdir_leaf :: "env \<Rightarrow> path \<Rightarrow> world \<Rightarrow> error option \<times> world" where
  \<comment> \<open>\<^verbatim>\<open>self.mkdir(mode, parents=False, exist_ok=True)\<close>\<close>
  "mkdir_leaf env d w =
     (case os_mkdir env d w of
        Inr w' \<Rightarrow> (None, w')
      | Inl FileNotFound \<Rightarrow> (Some MkdirError, w)
      | Inl OtherOSError \<Rightarrow> if dir_exists w d then (None, w) else (Some MkdirError, w))"

function mkdir :: "env \<Rightarrow> path \<Rightarrow> world \<Rightarrow> error option \<times> world" where
  \<comment> \<open>\<^verbatim>\<open>out_dir.mkdir(parents=True, exist_ok=True)\<close>, as pathlib defines it: the result is
      the error raised, if any, and the world the call leaves, in which missing ancestors
      may have been created before the call failed\<close>
  "mkdir env d w =
     (case os_mkdir env d w of
        Inr w' \<Rightarrow> (None, w')
      | Inl FileNotFound \<Rightarrow>
          (if d = [] then (Some MkdirError, w)
           else
             (case mkdir env (butlast d) w of
                (Some e, w1) \<Rightarrow> (Some e, w1)
              | (None, w1) \<Rightarrow> mkdir_leaf env d w1))
      | Inl OtherOSError \<Rightarrow> if dir_exists w d then (None, w) else (Some MkdirError, w))"
  by pat_completeness auto
termination
  by (relation "measure (\<lambda>(env, d, w). length d)") auto

definition open_rgba :: "world \<Rightarrow> path \<Rightarrow> error + image" where
  \<comment> \<open>\<^verbatim>\<open>Image.open(in_path).convert("RGBA")\<close>\<close>
  "open_rgba w p =
     (case files w p of
        Some (Picture im) \<Rightarrow> Inr im
      | _ \<Rightarrow> Inl OpenError)"

definition save :: "env \<Rightarrow> image \<Rightarrow> path \<Rightarrow> world \<Rightarrow> error + world" where
  \<comment> \<open>\<^verbatim>\<open>out.save(out_path, format="PNG")\<close>: an existing file is replaced\<close>
  "save env im p w =
     (if p \<in> dirs w \<or> \<not> may_write env p then Inl SaveError
      else Inr (w\<lparr>files := (files w)(p \<mapsto> Picture im)\<rparr>))"

section \<open>Batch processor\<close>

subsection \<open>\<^verbatim>\<open>process_image\<close>\<close>

text \<open>\<^verbatim>\<open>src/noback.py\<close>: no cropping.\<close>

definition process_image :: "env \<Rightarrow> path \<Rightarrow> path \<Rightarrow> world \<Rightarrow> (error + path) \<times> world" where
  "process_image env in_path out_dir w =
     (case mkdir env out_dir w of
        (Some e, w1) \<Rightarrow> (Inl e, w1)
      | (None, w1) \<Rightarrow>
          (case open_rgba w1 in_path of
             Inl e \<Rightarrow> (Inl e, w1)
           | Inr im \<Rightarrow>
               (case rembg_remove env im of
                  None \<Rightarrow> (Inl TransformError, w1)
                | Some out \<Rightarrow>
                    (let base = stem in_path;
                         out_path = out_dir @ [base @ ''_nobg.png'']
                     in case save env out out_path w1 of
                          Inl e \<Rightarrow> (Inl e, w1)
                        | Inr w2 \<Rightarrow> (Inr out_path, w2)))))"

text \<open>\<^verbatim>\<open>src/Version 0002/noback.py\<close>: the result is cropped to its bounding box, if it has one.\<close>

definition process_image_v2 :: "env \<Rightarrow> path \<Rightarrow> path \<Rightarrow> world \<Rightarrow> (error + path) \<times> world" where
  "process_image_v2 env in_path out_dir w =
     (case mkdir env out_dir w of
        (Some e, w1) \<Rightarrow> (Inl e, w1)
      | (None, w1) \<Rightarrow>
          (case open_rgba w1 in_path of
             Inl e \<Rightarrow> (Inl e, w1)
           | Inr im \<Rightarrow>
               (case rembg_remove env im of
                  None \<Rightarrow> (Inl TransformError, w1)
                | Some out0 \<Rightarrow>
                    (let bbox = getbbox out0;
                         out = (case bbox of Some box \<Rightarrow> crop out0 box | None \<Rightarrow> out0);
                         base = stem in_path;
                         out_path = out_dir @ [base @ ''_nobg.png'']
                     in case save env out out_path w1 of
                          Inl e \<Rightarrow> (Inl e, w1)
                        | Inr w2 \<Rightarrow> (Inr out_path, w2)))))"

subsection \<open>The loop of \<^verbatim>\<open>App.process\<close>\<close>

definition result_line :: "path \<Rightarrow> error + path \<Rightarrow> log_line" where
  \<comment> \<open>the line logged in the \<^verbatim>\<open>try\<close> branch or in the \<^verbatim>\<open>except Exception\<close> branch\<close>
  "result_line f r =
     (case r of
        Inr out_path \<Rightarrow> Success (name f) (name out_path)
      | Inl e \<Rightarrow> Failure (name f) e)"

fun process_loop :: "env \<Rightarrow> path \<Rightarrow> nat \<Rightarrow> path list \<Rightarrow> app \<times> world \<Rightarrow> app \<times> world" where
  "process_loop env out idx [] (a, w) = (a, w)"
| "process_loop env out idx (f # fs) (a, w) =
     (let rw = process_image env f out w;
          a1 = append_log (result_line f (fst rw)) a;
          a2 = a1\<lparr>pb_values := pb_values a1 @ [idx]\<rparr>
      in process_loop env out (Suc idx) fs (a2, snd rw))"

fun process :: "env \<Rightarrow> app \<times> world \<Rightarrow> app \<times> world" where
  "process env (a, w) =
     (if input_paths a = [] then (a\<lparr>warnings := warnings a @ [NoInput]\<rparr>, w)
      else
        (case output_dir a of
           None \<Rightarrow> (a\<lparr>warnings := warnings a @ [NoOutput]\<rparr>, w)
         | Some out \<Rightarrow>
             (let a1 = a\<lparr>pb_maximum := length (input_paths a), pb_values := pb_values a @ [0]\<rparr>;
                  a2 = append_log (Starting (length (input_paths a))) a1;
                  s3 = process_loop env out 1 (input_paths a) (a2, w)
              in (append_log Finished (fst s3), snd s3))))"

subsection \<open>The loop of \<^verbatim>\<open>NoBackApp._process_all\<close>\<close>

text \<open>
  \<^verbatim>\<open>start_process\<close> checks the inputs and the output directory and starts one worker
  thread that runs \<^verbatim>\<open>_process_all\<close>; the worker is modelled as running to its end.
  \<^verbatim>\<open>_process_all\<close> reads \<^verbatim>\<open>self.output_dir\<close>, which \<^verbatim>\<open>start_process\<close> has checked: it is the
  argument \<open>out\<close>.
\<close>

fun process_all_loop ::
  "env \<Rightarrow> path \<Rightarrow> nat \<Rightarrow> nat \<Rightarrow> path list \<Rightarrow> app \<times> world \<Rightarrow> app \<times> world" where
  "process_all_loop env out n_total idx [] (a, w) = (a, w)"
| "process_all_loop env out n_total idx (p # ps) (a, w) =
     (let a1 = append_log (Processing (name p)) a;
          rw = process_image_v2 env p out w;
          a2 = append_log (result_line p (fst rw)) a1;
          a3 = set_progress (of_nat idx / of_nat n_total) a2
      in process_all_loop env out n_total (Suc idx) ps (a3, snd rw))"

fun process_all :: "env \<Rightarrow> path \<Rightarrow> app \<times> world \<Rightarrow> app \<times> world" where
  "process_all env out (a, w) =
     (let n_total = length (input_paths a);
          a1 = append_log (ToProcess n_total) a;
          a2 = set_progress 0 a1;
          s3 = process_all_loop env out n_total 1 (input_paths a) (a2, w);
          a4 = append_log Finished (fst s3)
      in (set_progress 1 a4, snd s3))"

fun start_process :: "env \<Rightarrow> app \<times> world \<Rightarrow> app \<times> world" where
  "start_process env (a, w) =
     (if input_paths a = [] then (a\<lparr>warnings := warnings a @ [NoInput]\<rparr>, w)
      else
        (case output_dir a of
           None \<Rightarrow> (a\<lparr>warnings := warnings a @ [NoOutput]\<rparr>, w)
         | Some out \<Rightarrow> process_all env out (a, w)))"

subsection \<open>What a run does, item by item\<close>

text \<open>
  Observation functions for the theorems: the outcomes of the items of a run in order,
  each from the world the items before it left, and the world after the run; the result
  lines of a log and the item each one is about.
\<close>

type_synonym item_fun = "path \<Rightarrow> world \<Rightarrow> (error + path) \<times> world"

fun outcomes :: "item_fun \<Rightarrow> path list \<Rightarrow> world \<Rightarrow> (error + path) list" where
  "outcomes step [] w = []"
| "outcomes step (p # ps) w = fst (step p w) # outcomes step ps (snd (step p w))"

fun run_world :: "item_fun \<Rightarrow> path list \<Rightarrow> world \<Rightarrow> world" where
  "run_world step [] w = w"
| "run_world step (p # ps) w = run_world step ps (snd (step p w))"

fun is_result :: "log_line \<Rightarrow> bool" where
  "is_result (Success f out) = True"
| "is_result (Failure f e) = True"
| "is_result l = False"


fun item_of :: "log_line \<Rightarrow> string" where
  "item_of (Success f out) = f"
| "item_of (Failure f e) = f"
| "item_of (Processing f) = f"
| "item_of l = []"

definition results :: "log_line list \<Rightarrow> log_line list" where
  "results ls = filter is_result ls"

definition lines_of :: "path list \<Rightarrow> (error + path) list \<Rightarrow> log_line list" where
  \<comment> \<open>the result lines of the items, given their outcomes\<close>
  "lines_of ps rs = map (\<lambda>(p, r). result_line p r) (zip ps rs)"

definition new_lines :: "app \<Rightarrow> app \<Rightarrow> log_line list" where
  \<comment> \<open>the lines logged between two states\<close>
  "new_lines a a' = drop (length (log a)) (log a')"

definition written :: "(error + path) list \<Rightarrow> path list" where
  \<comment> \<open>the output paths of the successful items, in order\<close>
  "written rs = concat (map (\<lambda>r. case r of Inr out_path \<Rightarrow> [out_path] | Inl e \<Rightarrow> []) rs)"

definition fraction_of :: "nat \<Rightarrow> nat \<Rightarrow> rat" where
  \<comment> \<open>what a progress bar with this maximum shows at this value\<close>
  "fraction_of n_total i = of_nat i / of_nat n_total"

subsection \<open>Concrete inputs\<close>

definition fs_example :: node where
  "fs_example =
     Dir [(''a.png'', File), (''b.txt'', File), (''c.JPG'', File),
          (''sub'', Dir [(''d.webp'', File)])]"

definition fs_shots :: node where
  "fs_shots = Dir [(''a.png'', File), (''shots.png'', Dir [(''n.txt'', File)])]"

definition dot :: image where
  \<comment> \<open>a 4 by 3 canvas, transparent but for two opaque pixels in the middle row\<close>
  "dot = \<lparr>width = 4, height = 3,
          pixel = (\<lambda>x y. if (x = 1 \<or> x = 2) \<and> y = 1 then (255, 0, 0, 255) else (0, 0, 0, 0))\<rparr>"

definition blank :: image where
  "blank = \<lparr>width = 4, height = 3, pixel = (\<lambda>x y. (0, 0, 0, 0))\<rparr>"

definition strip :: image where
  "strip = \<lparr>width = 4, height = 1, pixel = (\<lambda>x y. (0, 0, 0, 0))\<rparr>"

definition env_ok :: env where
  \<comment> \<open>the transform returns its input and raises on an image of one row; everything is
      allowed\<close>
  "env_ok = \<lparr>rembg_remove = (\<lambda>im. if height im < 2 then None else Some im),
              may_mkdir = (\<lambda>d. True), may_write = (\<lambda>p. True)\<rparr>"

definition env_locked :: env where
  \<comment> \<open>the output directory cannot be created\<close>
  "env_locked = \<lparr>rembg_remove = (\<lambda>im. if height im < 2 then None else Some im),
                  may_mkdir = (\<lambda>d. False), may_write = (\<lambda>p. True)\<rparr>"

definition world3 :: world where
  \<comment> \<open>three inputs; the transform raises on the second one\<close>
  "world3 = \<lparr>dirs = {[], [''in'']},
             files = [[''in'', ''a.jpg''] \<mapsto> Picture dot, [''in'', ''b.png''] \<mapsto> Picture strip,
                      [''in'', ''a.png''] \<mapsto> Picture blank]\<rparr>"

definition world_photo :: world where
  \<comment> \<open>one input; a file of the output's name is already there\<close>
  "world_photo = \<lparr>dirs = {[], [''pics''], [''out'']},
     files = [[''pics'', ''photo.JPEG''] \<mapsto> Picture dot, [''out'', ''photo_nobg.png''] \<mapsto> Junk]\<rparr>"

definition fs_nested :: node where
  \<comment> \<open>a folder that holds no file, only a directory with the name of an image\<close>
  "fs_nested = Dir [(''d'', Dir [(''shots.png'', Dir [(''n.txt'', File)])])]"

definition env_half :: env where
  \<comment> \<open>the directory \<^verbatim>\<open>new\<close> may be created, nothing else\<close>
  "env_half = \<lparr>rembg_remove = (\<lambda>im. if height im < 2 then None else Some im),
                may_mkdir = (\<lambda>d. d = [''new'']), may_write = (\<lambda>p. True)\<rparr>"

definition app3 :: app where
  "app3 = app0\<lparr>input_paths := [[''in'', ''a.jpg''], [''in'', ''b.png''], [''in'', ''a.png'']],
               output_dir := Some [''out'']\<rparr>"

definition app_new :: app where
  \<comment> \<open>the same inputs, the output directory two levels below the root, both missing\<close>
  "app_new = app3\<lparr>output_dir := Some [''new'', ''x'']\<rparr>"

definition app_chain :: app where
  \<comment> \<open>the second input is the output of the first\<close>
  "app_chain = app0\<lparr>input_paths := [[''in'', ''a.jpg''], [''out'', ''a_nobg.png'']],
                    output_dir := Some [''out'']\<rparr>"

declare mkdir.simps [simp del]

section \<open>Properties of the input collector\<close>

lemma rglob_node_below:
  "q \<in> set (rglob_node p n) \<Longrightarrow> \<exists>r. r \<noteq> [] \<and> q = p @ r"
proof (induction p n arbitrary: q rule: rglob_node.induct)
  case (1 p)
  then show ?case by simp
next
  case (2 p es)
  from "2.prems" consider
    (entry) e where "e \<in> set es" "q = p @ [fst e]"
  | (deeper) e where "e \<in> set es" "q \<in> set (rglob_node (p @ [fst e]) (snd e))"
    by auto
  then show ?case
  proof cases
    case entry
    then show ?thesis by blast
  next
    case deeper
    from "2.IH" [OF deeper] obtain r where "q = (p @ [fst e]) @ r" by blast
    then have "q = p @ (fst e # r)" by simp
    then show ?thesis by blast
  qed
qed

lemma distinct_concat_by_head:
  assumes "distinct (map fst es)"
    and "\<And>e. e \<in> set es \<Longrightarrow> distinct (f e)"
    and "\<And>e q. e \<in> set es \<Longrightarrow> q \<in> set (f e) \<Longrightarrow> \<exists>r. q = p @ fst e # r"
  shows "distinct (concat (map f es))"
  using assms
proof (induction es)
  case Nil
  then show ?case by simp
next
  case (Cons e es)
  have tl: "distinct (concat (map f es))"
    using Cons by simp
  have hd: "distinct (f e)"
    using Cons.prems(2) by simp
  have disj: "set (f e) \<inter> set (concat (map f es)) = {}"
  proof (rule ccontr)
    assume "set (f e) \<inter> set (concat (map f es)) \<noteq> {}"
    then obtain q e' where q: "q \<in> set (f e)" and e': "e' \<in> set es" and q': "q \<in> set (f e')"
      by auto
    from Cons.prems(3) [of e q] q obtain r where "q = p @ fst e # r" by auto
    moreover from Cons.prems(3) [of e' q] e' q' obtain r' where "q = p @ fst e' # r'" by auto
    ultimately have "fst e = fst e'" by simp
    with e' Cons.prems(1) show False by force
  qed
  from hd tl disj show ?case by simp
qed

lemma distinct_rglob_node: "wf_node n \<Longrightarrow> distinct (rglob_node p n)"
proof (induction p n rule: rglob_node.induct)
  case (1 p)
  then show ?case by simp
next
  case (2 p es)
  let ?f = "\<lambda>e. rglob_node (p @ [fst e]) (snd e)"
  from "2.prems" have names: "distinct (map fst es)"
    and sub: "\<And>e. e \<in> set es \<Longrightarrow> wf_node (snd e)"
    by (simp_all add: list_all_iff)
  have below: "\<exists>r. r \<noteq> [] \<and> q = p @ fst e # r" if "q \<in> set (?f e)" for e q
  proof -
    from rglob_node_below [OF that] obtain r where "r \<noteq> []" "q = (p @ [fst e]) @ r" by blast
    then show ?thesis by simp
  qed
  have first: "distinct (map (\<lambda>e. p @ [fst e]) es)"
  proof -
    have "distinct (map (\<lambda>c. p @ [c]) (map fst es))"
      using names by (subst distinct_map) (simp add: inj_on_def)
    then show ?thesis by (simp add: comp_def)
  qed
  have rest: "distinct (concat (map ?f es))"
  proof (rule distinct_concat_by_head [OF names])
    fix e assume "e \<in> set es"
    then show "distinct (?f e)" using "2.IH" sub by blast
  next
    fix e q assume "e \<in> set es" "q \<in> set (?f e)"
    then show "\<exists>r. q = p @ fst e # r" using below by blast
  qed
  have apart: "set (map (\<lambda>e. p @ [fst e]) es) \<inter> set (concat (map ?f es)) = {}"
  proof (rule ccontr)
    assume "\<not> ?thesis"
    then obtain c e' where "p @ [c] \<in> set (?f e')"
      by auto
    with below [of "p @ [c]" e'] show False by auto
  qed
  from first rest apart show ?case by simp
qed

lemma wf_lookup: "wf_node n \<Longrightarrow> lookup n p = Some m \<Longrightarrow> wf_node m"
proof (induction n p rule: lookup.induct)
  case (3 es c cs)
  from "3.prems"(2) obtain k where k: "map_of es c = Some k" and m: "lookup k cs = Some m"
    by (auto split: option.splits)
  from k have "(c, k) \<in> set es" by (rule map_of_SomeD)
  with "3.prems"(1) have "wf_node k" by (auto simp: list_all_iff)
  with "3.IH" k m show ?case by simp
qed simp_all

lemma distinct_rglob: "wf_node fs \<Longrightarrow> distinct (rglob fs folder)"
proof (cases "lookup fs folder")
  case None
  then show ?thesis by (simp add: rglob_def)
next
  case (Some m)
  assume "wf_node fs"
  with Some have "wf_node m" using wf_lookup by blast
  then have "distinct (rglob_node folder m)" by (rule distinct_rglob_node)
  with Some show ?thesis by (cases m) (simp_all add: rglob_def)
qed

lemma rglob_below: "q \<in> set (rglob fs folder) \<Longrightarrow> strict_prefix folder q"
proof -
  assume "q \<in> set (rglob fs folder)"
  then have "\<exists>m. q \<in> set (rglob_node folder m)"
    unfolding rglob_def by (cases "lookup fs folder"; cases "the (lookup fs folder)")
      (auto simp del: rglob_node.simps)
  then obtain r where "r \<noteq> []" "q = folder @ r"
    using rglob_node_below by blast
  then show ?thesis by (simp add: strict_prefix_def)
qed

lemma distinct_iter_images: "wf_node fs \<Longrightarrow> distinct (iter_images_in_dir fs folder)"
  by (simp add: iter_images_in_dir_def distinct_rglob)

lemma iter_images_below: "q \<in> set (iter_images_in_dir fs folder) \<Longrightarrow> strict_prefix folder q"
  by (auto simp: iter_images_in_dir_def intro: rglob_below)

lemma drop_loop_concat: "drop_loop fs ps acc = acc @ concat (map (expand fs) ps)"
  by (induction ps arbitrary: acc) (auto simp: expand_def)

lemma expand_below: "q \<in> set (expand fs p) \<Longrightarrow> prefix p q"
  by (auto simp: expand_def dest: iter_images_below split: if_splits)

lemma distinct_expand: "wf_node fs \<Longrightarrow> distinct (expand fs p)"
  by (simp add: expand_def distinct_iter_images)

lemma unnested_iff:
  "unnested ps \<longleftrightarrow> distinct ps \<and> (\<forall>p\<in>set ps. \<forall>q\<in>set ps. p = q \<or> \<not> prefix p q)"
  by (simp add: unnested_def list_all_iff)

lemma distinct_concat_expand:
  assumes "wf_node fs" "unnested ps"
  shows "distinct (concat (map (expand fs) ps))"
  using assms(2)
proof (induction ps)
  case Nil
  then show ?case by simp
next
  case (Cons p ps)
  from Cons.prems have un: "unnested ps" and new: "p \<notin> set ps"
    and cross: "\<And>q. q \<in> set ps \<Longrightarrow> \<not> prefix p q \<and> \<not> prefix q p"
    by (auto simp: unnested_iff)
  have "set (expand fs p) \<inter> set (concat (map (expand fs) ps)) = {}"
  proof (rule ccontr)
    assume "\<not> ?thesis"
    then obtain x q where "x \<in> set (expand fs p)" "q \<in> set ps" "x \<in> set (expand fs q)"
      by auto
    then have "prefix p x" "prefix q x" "q \<in> set ps" by (auto dest: expand_below)
    then have "prefix p q \<or> prefix q p" using prefix_same_cases by blast
    with cross \<open>q \<in> set ps\<close> show False by blast
  qed
  with Cons.IH [OF un] distinct_expand [OF assms(1)] show ?case by simp
qed

section \<open>Claims about the input collector\<close>

text \<open>
  C4. The claim: \<^verbatim>\<open>collect_from_folder\<close> yields exactly the regular files below the folder with
  a supported extension; subdirectories themselves are never included. The code filters
  the listing by suffix alone. On a folder that holds the file \<^verbatim>\<open>a.png\<close> and a directory
  named \<^verbatim>\<open>shots.png\<close>, the directory is yielded as well, although \<^verbatim>\<open>on_drop\<close> asks
  \<^verbatim>\<open>p.is_file()\<close> before it takes a path with a supported suffix.
\<close>

theorem iter_images_in_dir_yields_directory:
  "iter_images_in_dir fs_shots [] = [[''a.png''], [''shots.png'']] \<and>
   is_dir fs_shots [''shots.png''] \<and> \<not> is_file fs_shots [''shots.png'']"
  by code_simp

lemma iter_images_in_dir_example:
  "iter_images_in_dir fs_example [] = [[''a.png''], [''c.JPG''], [''sub'', ''d.webp'']]"
  by code_simp

text \<open>
  C7. \<^verbatim>\<open>on_drop\<close> goes through the paths of the payload in the order given: a file with a
  supported extension contributes itself, a directory contributes what \<^verbatim>\<open>choose_folder\<close>
  selects for it, anything else contributes nothing; the list collected is the
  concatenation of these contributions, and it is what \<^verbatim>\<open>on_drop\<close> stores when it is not
  empty.
\<close>

theorem on_drop_concatenates_expansions:
  "drop_loop fs paths [] =
     concat (map (\<lambda>p. if is_file fs p \<and> supported p then [p]
                       else if is_dir fs p then input_paths (choose_folder fs (Some p) a)
                       else []) paths) \<and>
   input_paths (on_drop fs paths a) =
     (if drop_loop fs paths [] = [] then input_paths a else drop_loop fs paths [])"
proof -
  have "expand fs = (\<lambda>p. if is_file fs p \<and> supported p then [p]
                       else if is_dir fs p then input_paths (choose_folder fs (Some p) a)
                       else [])"
    by (rule ext) (simp add: expand_def choose_folder_def append_log_def)
  then have "drop_loop fs paths [] = concat (map (\<lambda>p. if is_file fs p \<and> supported p then [p]
                       else if is_dir fs p then input_paths (choose_folder fs (Some p) a)
                       else []) paths)"
    using drop_loop_concat [of fs paths "[]"] by simp
  moreover have "input_paths (on_drop fs paths a) =
     (if drop_loop fs paths [] = [] then input_paths a else drop_loop fs paths [])"
    by (simp add: on_drop_def append_log_def Let_def)
  ultimately show ?thesis by blast
qed

theorem on_drop_concatenates_expansions_witness:
  "input_paths (on_drop fs_example [[''sub''], [''b.txt''], [''ghost''], [''a.png'']] app0) =
     [[''sub'', ''d.webp''], [''a.png'']]"
proof -
  have "drop_loop fs_example [[''sub''], [''b.txt''], [''ghost''], [''a.png'']] [] =
     [[''sub'', ''d.webp''], [''a.png'']]"
    by code_simp
  then show ?thesis
    using on_drop_concatenates_expansions
      [of fs_example "[[''sub''], [''b.txt''], [''ghost''], [''a.png'']]" app0]
    by simp
qed

text \<open>
  C9. The claim: a drop whose payload holds no supported file, and no directory that
  contains one, leaves the work list selected before as it is. \<^verbatim>\<open>on_drop\<close> expands a
  dropped directory with \<^verbatim>\<open>iter_images_in_dir\<close>, which tests the suffix only: a dropped
  folder that holds no file at all, only a directory named \<^verbatim>\<open>shots.png\<close>, replaces the work
  list by that directory and logs one loaded file.
\<close>

theorem on_drop_replaces_list_by_directory:
  "is_dir fs_nested [''d''] \<and>
   filter (\<lambda>p. is_file fs_nested p \<and> supported p) (rglob fs_nested [''d'']) = [] \<and>
   is_dir fs_nested [''d'', ''shots.png''] \<and>
   input_paths (on_drop fs_nested [[''d'']] (app0\<lparr>input_paths := [[''k.png'']]\<rparr>)) =
     [[''d'', ''shots.png'']] \<and>
   log (on_drop fs_nested [[''d'']] (app0\<lparr>input_paths := [[''k.png'']]\<rparr>)) = [Dropped 1]"
  by code_simp

text \<open>
  The work list stays when the list \<^verbatim>\<open>on_drop\<close> collects is empty: no path of the payload
  is a supported file, and \<^verbatim>\<open>iter_images_in_dir\<close> yields nothing for its directories.
\<close>

lemma on_drop_unchanged_when_nothing_collected:
  assumes "\<forall>p\<in>set paths. \<not> (is_file fs p \<and> supported p) \<and>
             (is_dir fs p \<longrightarrow> iter_images_in_dir fs p = [])"
  shows "on_drop fs paths a = a"
proof -
  from assms have "\<forall>p\<in>set paths. expand fs p = []"
    by (simp add: expand_def)
  then have "concat (map (expand fs) paths) = []"
    by simp
  then have "drop_loop fs paths [] = []"
    by (simp add: drop_loop_concat)
  then show ?thesis
    by (simp add: on_drop_def)
qed

text \<open>
  C8. The claim: the work list never holds a path twice. The code removes no duplicates:
  a drop of a folder together with a file inside it yields that file twice.
\<close>

theorem on_drop_keeps_duplicates:
  "input_paths (on_drop fs_example [[''sub''], [''sub'', ''d.webp'']] app0) =
     [[''sub'', ''d.webp''], [''sub'', ''d.webp'']] \<and>
   \<not> distinct (input_paths (on_drop fs_example [[''sub''], [''sub'', ''d.webp'']] app0))"
  by code_simp

text \<open>
  C8, amended. No duplicates are removed, and none arise when the input has none: in a
  file system whose directories hold each name once, a folder selection has no path
  twice; a drop whose paths are pairwise different and not below one another has no path
  twice; a file selection is the list of the chosen files as given. So each of the three
  actions keeps the work list free of duplicates if the chosen files are.
\<close>

theorem work_list_distinct_when_input_unnested:
  assumes "wf_node fs" and "unnested paths" and "distinct chosen" and "distinct (input_paths a)"
  shows "distinct (input_paths (choose_folder fs folder a)) \<and>
         distinct (input_paths (on_drop fs paths a)) \<and>
         distinct (input_paths (choose_files chosen a)) \<and>
         (chosen \<noteq> [] \<longrightarrow> input_paths (choose_files chosen a) = chosen)"
proof -
  have "distinct (input_paths (choose_folder fs folder a))"
    using assms(1,4)
    by (cases folder) (simp_all add: choose_folder_def append_log_def distinct_iter_images)
  moreover have "distinct (input_paths (on_drop fs paths a))"
    using distinct_concat_expand [OF assms(1,2)] assms(4)
    by (simp add: on_drop_def append_log_def Let_def drop_loop_concat)
  moreover have "distinct (input_paths (choose_files chosen a))"
    using assms(3,4) by (simp add: choose_files_def append_log_def)
  moreover have "chosen \<noteq> [] \<longrightarrow> input_paths (choose_files chosen a) = chosen"
    by (simp add: choose_files_def append_log_def)
  ultimately show ?thesis by blast
qed

theorem work_list_distinct_when_input_unnested_witness:
  "wf_node fs_example \<and> unnested [[''sub''], [''a.png'']] \<and> distinct [[''c.JPG'']] \<and>
   distinct (input_paths app0) \<and>
   distinct (input_paths (choose_folder fs_example (Some []) app0)) \<and>
   distinct (input_paths (on_drop fs_example [[''sub''], [''a.png'']] app0)) \<and>
   distinct (input_paths (choose_files [[''c.JPG'']] app0)) \<and>
   input_paths (choose_files [[''c.JPG'']] app0) = [[''c.JPG'']]"
proof -
  have h1: "wf_node fs_example" by code_simp
  have h2: "unnested [[''sub''], [''a.png'']]" by code_simp
  have h3: "distinct [[''c.JPG'' :: string]]" by simp
  have h4: "distinct (input_paths app0)" by (simp add: app0_def)
  from work_list_distinct_when_input_unnested [OF h1 h2 h3 h4, of "Some []"] h1 h2 h3 h4
  show ?thesis by simp
qed

section \<open>Properties of the batch processor\<close>

subsection \<open>Creating the output directory\<close>

lemma os_mkdir_files: "os_mkdir env d w = Inr w' \<Longrightarrow> files w' = files w"
  by (auto simp: os_mkdir_def split: if_splits)

lemma os_mkdir_dirs: "os_mkdir env d w = Inr w' \<Longrightarrow> dirs w' = insert d (dirs w)"
  by (auto simp: os_mkdir_def split: if_splits)

lemma mkdir_leaf_files: "files (snd (mkdir_leaf env d w)) = files w"
  by (auto simp: mkdir_leaf_def dest: os_mkdir_files split: sum.splits os_error.splits)

lemma mkdir_leaf_dirs: "q \<in> dirs (snd (mkdir_leaf env d w)) \<Longrightarrow> q \<in> dirs w \<or> q = d"
  by (auto simp: mkdir_leaf_def dest: os_mkdir_dirs split: sum.splits os_error.splits if_splits)

lemma mkdir_leaf_fails:
  "fst (mkdir_leaf env d w) = Some e \<Longrightarrow>
     e = MkdirError \<and> snd (mkdir_leaf env d w) = w \<and> \<not> dir_exists w d \<and>
     (\<exists>x. os_mkdir env d w = Inl x)"
  by (auto simp: mkdir_leaf_def os_mkdir_def split: sum.splits os_error.splits if_splits)

lemma mkdir_leaf_exists: "fst (mkdir_leaf env d w) = None \<Longrightarrow> dir_exists (snd (mkdir_leaf env d w)) d"
  by (auto simp: mkdir_leaf_def dir_exists_def dest: os_mkdir_dirs
      split: sum.splits os_error.splits if_splits)

lemma mkdir_created: "os_mkdir env d w = Inr w' \<Longrightarrow> mkdir env d w = (None, w')"
  by (subst mkdir.simps) simp

lemma mkdir_refused:
  "os_mkdir env d w = Inl OtherOSError \<Longrightarrow>
     mkdir env d w = (if dir_exists w d then (None, w) else (Some MkdirError, w))"
  by (subst mkdir.simps) simp

lemma not_found_nonempty: "os_mkdir env d w = Inl FileNotFound \<Longrightarrow> d \<noteq> []"
  by (auto simp: os_mkdir_def dir_exists_def split: if_splits)

lemma not_found_absent:
  "os_mkdir env d w = Inl FileNotFound \<Longrightarrow>
     \<not> dir_exists w d \<and> files w d = None \<and> files w (butlast d) = None"
  by (auto simp: os_mkdir_def split: if_splits)

lemma mkdir_parent_fails:
  "os_mkdir env d w = Inl FileNotFound \<Longrightarrow> fst (mkdir env (butlast d) w) = Some e \<Longrightarrow>
     mkdir env d w = (Some e, snd (mkdir env (butlast d) w))"
  by (subst mkdir.simps) (simp add: not_found_nonempty case_prod_unfold)

lemma mkdir_parent_made:
  "os_mkdir env d w = Inl FileNotFound \<Longrightarrow> fst (mkdir env (butlast d) w) = None \<Longrightarrow>
     mkdir env d w = mkdir_leaf env d (snd (mkdir env (butlast d) w))"
  by (subst mkdir.simps) (simp add: not_found_nonempty case_prod_unfold)

lemma mkdir_induct [case_names created refused parent_fails parent_made]:
  assumes "\<And>env d w w'. os_mkdir env d w = Inr w' \<Longrightarrow> P env d w"
    and "\<And>env d w. os_mkdir env d w = Inl OtherOSError \<Longrightarrow> P env d w"
    and "\<And>env d w e. os_mkdir env d w = Inl FileNotFound \<Longrightarrow>
           fst (mkdir env (butlast d) w) = Some e \<Longrightarrow> P env (butlast d) w \<Longrightarrow> P env d w"
    and "\<And>env d w. os_mkdir env d w = Inl FileNotFound \<Longrightarrow>
           fst (mkdir env (butlast d) w) = None \<Longrightarrow> P env (butlast d) w \<Longrightarrow> P env d w"
  shows "P env d w"
proof (induction env d w rule: mkdir.induct)
  case (1 env d w)
  show ?case
  proof (cases "os_mkdir env d w")
    case (Inr w')
    then show ?thesis by (rule assms(1))
  next
    case (Inl x)
    show ?thesis
    proof (cases x)
      case OtherOSError
      with Inl show ?thesis by (simp add: assms(2))
    next
      case FileNotFound
      with Inl have nf: "os_mkdir env d w = Inl FileNotFound" by simp
      then have "d \<noteq> []" by (rule not_found_nonempty)
      with "1.IH" Inl FileNotFound have ih: "P env (butlast d) w" by simp
      show ?thesis
      proof (cases "fst (mkdir env (butlast d) w)")
        case None
        with nf ih show ?thesis using assms(4) by blast
      next
        case (Some e)
        with nf ih show ?thesis using assms(3) by blast
      qed
    qed
  qed
qed

lemma mkdir_files: "files (snd (mkdir env d w)) = files w"
proof (induction env d w rule: mkdir_induct)
  case (created env d w w')
  then show ?case by (simp add: mkdir_created os_mkdir_files)
next
  case (refused env d w)
  then show ?case by (simp add: mkdir_refused)
next
  case (parent_fails env d w e)
  then show ?case by (simp add: mkdir_parent_fails)
next
  case (parent_made env d w)
  then show ?case by (simp add: mkdir_parent_made mkdir_leaf_files)
qed

lemma mkdir_error: "fst (mkdir env d w) = Some e \<Longrightarrow> e = MkdirError"
proof (induction env d w rule: mkdir_induct)
  case (created env d w w')
  then show ?case by (simp add: mkdir_created)
next
  case (refused env d w)
  then show ?case by (simp add: mkdir_refused split: if_splits)
next
  case (parent_fails env d w e')
  then show ?case by (simp add: mkdir_parent_fails)
next
  case (parent_made env d w)
  then show ?case by (simp add: mkdir_parent_made mkdir_leaf_fails)
qed

lemma mkdir_dirs: "q \<in> dirs (snd (mkdir env d w)) \<Longrightarrow> q \<in> dirs w \<or> prefix q d"
proof (induction env d w rule: mkdir_induct)
  case (created env d w w')
  then show ?case by (auto simp: mkdir_created dest: os_mkdir_dirs)
next
  case (refused env d w)
  then show ?case by (simp add: mkdir_refused split: if_splits)
next
  case (parent_fails env d w e)
  then have "q \<in> dirs w \<or> prefix q (butlast d)"
    by (simp add: mkdir_parent_fails)
  then show ?case
    using prefix_order.trans [OF _ prefixeq_butlast] by blast
next
  case (parent_made env d w)
  then have "q \<in> dirs (snd (mkdir env (butlast d) w)) \<or> q = d"
    using mkdir_leaf_dirs by (simp add: mkdir_parent_made)
  with parent_made.IH show ?case
    using prefix_order.trans [OF _ prefixeq_butlast] by blast
qed

lemma mkdir_exists: "dir_exists w d \<Longrightarrow> mkdir env d w = (None, w)"
proof -
  assume "dir_exists w d"
  then have "os_mkdir env d w = Inl OtherOSError"
    by (simp add: os_mkdir_def)
  with \<open>dir_exists w d\<close> show ?thesis
    by (simp add: mkdir_refused)
qed

lemma mkdir_success:
  "fst (mkdir env d w) = None \<Longrightarrow> dir_exists (snd (mkdir env d w)) d"
proof (induction env d w rule: mkdir_induct)
  case (created env d w w')
  then show ?case by (auto simp: mkdir_created dir_exists_def dest: os_mkdir_dirs)
next
  case (refused env d w)
  then show ?case by (simp add: mkdir_refused split: if_splits)
next
  case (parent_fails env d w e)
  then show ?case by (simp add: mkdir_parent_fails)
next
  case (parent_made env d w)
  then show ?case by (simp add: mkdir_parent_made mkdir_leaf_exists)
qed

lemma mkdir_fails_again:
  "fst (mkdir env d w) = Some e \<Longrightarrow>
     mkdir env d (snd (mkdir env d w)) = (Some e, snd (mkdir env d w))"
proof (induction env d w rule: mkdir_induct)
  case (created env d w w')
  then show ?case by (simp add: mkdir_created)
next
  case (refused env d w)
  then show ?case by (simp add: mkdir_refused split: if_splits)
next
  case (parent_fails env d w e')
  let ?w1 = "snd (mkdir env (butlast d) w)"
  from parent_fails have e: "e' = e" and res: "mkdir env d w = (Some e, ?w1)"
    by (simp_all add: mkdir_parent_fails)
  from parent_fails e have again: "mkdir env (butlast d) ?w1 = (Some e, ?w1)"
    by simp
  have absent: "\<not> dir_exists w d" "files w d = None" "files w (butlast d) = None"
    and ne: "d \<noteq> []"
    using not_found_absent [OF parent_fails(1)] not_found_nonempty [OF parent_fails(1)]
    by simp_all
  have "\<not> prefix d (butlast d)"
  proof
    assume "prefix d (butlast d)"
    from prefix_length_le [OF this] have "length d \<le> length d - 1" by (simp only: length_butlast)
    moreover from ne have "0 < length d" by simp
    ultimately show False by linarith
  qed
  then have "d \<notin> dirs ?w1"
    using mkdir_dirs [of d env "butlast d" w] absent(1) by (auto simp: dir_exists_def)
  then have d1: "\<not> dir_exists ?w1 d"
    using ne by (simp add: dir_exists_def)
  have p1: "\<not> dir_exists ?w1 (butlast d)"
    using again mkdir_exists [of ?w1 "butlast d" env] by auto
  have "os_mkdir env d ?w1 = Inl FileNotFound"
    using d1 p1 absent(2,3) by (simp add: os_mkdir_def mkdir_files)
  then have "mkdir env d ?w1 = (Some e, snd (mkdir env (butlast d) ?w1))"
    using again by (simp add: mkdir_parent_fails)
  with again res show ?case by simp
next
  case (parent_made env d w)
  let ?w1 = "snd (mkdir env (butlast d) w)"
  from parent_made have res: "mkdir env d w = mkdir_leaf env d ?w1"
    by (simp add: mkdir_parent_made)
  with parent_made.prems have leaf: "fst (mkdir_leaf env d ?w1) = Some e"
    by simp
  note f = mkdir_leaf_fails [OF leaf]
  from parent_made(2) have "dir_exists ?w1 (butlast d)"
    by (rule mkdir_success)
  with f have "os_mkdir env d ?w1 = Inl OtherOSError"
    by (auto simp: os_mkdir_def split: if_splits)
  with f have "mkdir env d ?w1 = (Some e, ?w1)"
    by (simp add: mkdir_refused)
  with res f show ?case by simp
qed

subsection \<open>One item\<close>

lemma save_files:
  "save env im p w = Inr w2 \<Longrightarrow> files w2 = (files w)(p \<mapsto> Picture im)"
  by (auto simp: save_def split: if_splits)

lemma open_rgba_after_mkdir:
  assumes "files w p = Some (Picture im)"
  shows "open_rgba (snd (mkdir env out w)) p = Inr im"
  using assms by (simp add: open_rgba_def mkdir_files)

lemma process_image_inv:
  assumes "fst (process_image env p out w) = Inr op"
  shows "\<exists>im t. fst (mkdir env out w) = None \<and> open_rgba (snd (mkdir env out w)) p = Inr im \<and>
           rembg_remove env im = Some t \<and> op = out @ [stem p @ ''_nobg.png''] \<and>
           save env t op (snd (mkdir env out w)) = Inr (snd (process_image env p out w))"
  using assms unfolding process_image_def Let_def
  by (auto split: prod.splits sum.splits option.splits)



lemma process_image_v2_inv:
  assumes "fst (process_image_v2 env p out w) = Inr op"
  shows "\<exists>im t. fst (mkdir env out w) = None \<and> open_rgba (snd (mkdir env out w)) p = Inr im \<and>
           rembg_remove env im = Some t \<and> op = out @ [stem p @ ''_nobg.png''] \<and>
           save env (case getbbox t of Some box \<Rightarrow> crop t box | None \<Rightarrow> t) op
             (snd (mkdir env out w)) = Inr (snd (process_image_v2 env p out w))"
  using assms unfolding process_image_v2_def Let_def
  by (auto split: prod.splits sum.splits option.splits)



lemma process_image_mkdir_fails:
  "fst (mkdir env out w) = Some e \<Longrightarrow> process_image env p out w = (Inl e, snd (mkdir env out w))"
  by (cases "mkdir env out w") (simp add: process_image_def)

lemma process_image_v2_mkdir_fails:
  "fst (mkdir env out w) = Some e \<Longrightarrow>
     process_image_v2 env p out w = (Inl e, snd (mkdir env out w))"
  by (cases "mkdir env out w") (simp add: process_image_v2_def)

lemma process_image_writes:
  assumes "fst (mkdir env out w) = None" and "files w p = Some (Picture im)"
    and "rembg_remove env im = Some t" and "op = out @ [stem p @ ''_nobg.png'']"
    and "op \<notin> dirs (snd (mkdir env out w))" and "may_write env op"
  shows "process_image env p out w =
           (Inr op, (snd (mkdir env out w))\<lparr>files := (files w)(op \<mapsto> Picture t)\<rparr>)"
  using assms open_rgba_after_mkdir [OF assms(2), of env out] mkdir_files [of env out w]
  by (cases "mkdir env out w") (simp add: process_image_def Let_def save_def)

lemma process_image_v2_writes:
  assumes "fst (mkdir env out w) = None" and "files w p = Some (Picture im)"
    and "rembg_remove env im = Some t" and "op = out @ [stem p @ ''_nobg.png'']"
    and "op \<notin> dirs (snd (mkdir env out w))" and "may_write env op"
  shows "process_image_v2 env p out w =
           (Inr op, (snd (mkdir env out w))
              \<lparr>files := (files w)(op \<mapsto> Picture (case getbbox t of Some box \<Rightarrow> crop t box | None \<Rightarrow> t))\<rparr>)"
  using assms open_rgba_after_mkdir [OF assms(2), of env out] mkdir_files [of env out w]
  by (cases "mkdir env out w") (simp add: process_image_v2_def Let_def save_def)

subsection \<open>Runs, item by item\<close>

lemma length_outcomes: "length (outcomes step ps w) = length ps"
  by (induction ps arbitrary: w) simp_all


lemma outcomes_append:
  "outcomes step (ps @ qs) w = outcomes step ps w @ outcomes step qs (run_world step ps w)"
  by (induction ps arbitrary: w) simp_all

lemma outcomes_nth:
  assumes "i < length ps"
  shows "outcomes step ps w ! i = fst (step (ps ! i) (run_world step (take i ps) w))"
proof -
  have "ps = take i ps @ ps ! i # drop (Suc i) ps"
    using assms by (rule id_take_nth_drop)
  then have "outcomes step ps w =
      outcomes step (take i ps) w @
      outcomes step (ps ! i # drop (Suc i) ps) (run_world step (take i ps) w)"
    using outcomes_append [of step "take i ps" "ps ! i # drop (Suc i) ps" w] by simp
  moreover have "length (outcomes step (take i ps) w) = i"
    using assms by (simp add: length_outcomes)
  ultimately show ?thesis
    by (simp add: nth_append)
qed

lemma is_result_line [simp]: "is_result (result_line p r)"
  by (cases r) (simp_all add: result_line_def)

lemma item_of_result_line [simp]: "item_of (result_line p r) = name p"
  by (cases r) (simp_all add: result_line_def)

lemma process_loop_log:
  "log (fst (process_loop env out k ps (a, w))) =
     log a @ lines_of ps (outcomes (\<lambda>p. process_image env p out) ps w)"
  by (induction ps arbitrary: a w k) (simp_all add: lines_of_def Let_def append_log_def)

lemma process_loop_values:
  "pb_values (fst (process_loop env out k ps (a, w))) = pb_values a @ [k..<k + length ps]"
  by (induction ps arbitrary: a w k) (simp_all add: Let_def append_log_def upt_rec)

lemma process_loop_world:
  "snd (process_loop env out k ps (a, w)) = run_world (\<lambda>p. process_image env p out) ps w"
  by (induction ps arbitrary: a w k) (simp_all add: Let_def)

lemma process_loop_maximum:
  "pb_maximum (fst (process_loop env out k ps (a, w))) = pb_maximum a"
  by (induction ps arbitrary: a w k) (simp_all add: Let_def append_log_def)

lemma process_all_loop_log:
  "log (fst (process_all_loop env out n k ps (a, w))) =
     log a @ concat (map (\<lambda>(p, r). [Processing (name p), result_line p r])
                       (zip ps (outcomes (\<lambda>p. process_image_v2 env p out) ps w)))"
  by (induction ps arbitrary: a w k) (simp_all add: Let_def append_log_def set_progress_def)

lemma process_all_loop_calls:
  "progress_calls (fst (process_all_loop env out n k ps (a, w))) =
     progress_calls a @ map (fraction_of n) [k..<k + length ps]"
  by (induction ps arbitrary: a w k)
    (simp_all add: Let_def append_log_def set_progress_def fraction_of_def upt_rec)

lemma process_all_loop_world:
  "snd (process_all_loop env out n k ps (a, w)) = run_world (\<lambda>p. process_image_v2 env p out) ps w"
  by (induction ps arbitrary: a w k) (simp_all add: Let_def)

subsection \<open>Whole runs\<close>

lemma length_lines_of: "length rs = length ps \<Longrightarrow> length (lines_of ps rs) = length ps"
  by (simp add: lines_of_def)

lemma results_lines_of: "results (lines_of ps rs) = lines_of ps rs"
  by (simp add: results_def lines_of_def) (auto simp: filter_id_conv)

lemma items_lines_of: "length rs = length ps \<Longrightarrow> map item_of (lines_of ps rs) = map name ps"
proof -
  assume "length rs = length ps"
  then have "map fst (zip ps rs) = ps" by simp
  moreover have "map item_of (lines_of ps rs) = map name (map fst (zip ps rs))"
    by (simp add: lines_of_def case_prod_unfold comp_def)
  ultimately show ?thesis by simp
qed

lemma lines_of_nth:
  "i < length ps \<Longrightarrow> length rs = length ps \<Longrightarrow> lines_of ps rs ! i = result_line (ps ! i) (rs ! i)"
  by (simp add: lines_of_def)

lemma results_interleaved:
  "results (concat (map (\<lambda>(p, r). [Processing (name p), result_line p r]) (zip ps rs))) =
     lines_of ps rs"
  by (induction ps rs rule: list_induct2') (simp_all add: results_def lines_of_def)

lemma process_new_lines:
  assumes "input_paths a = ps" "ps \<noteq> []" "output_dir a = Some out"
  shows "new_lines a (fst (process env (a, w))) =
           Starting (length ps) # lines_of ps (outcomes (\<lambda>p. process_image env p out) ps w) @ [Finished]"
  using assms
  by (simp add: new_lines_def Let_def append_log_def process_loop_log)

lemma process_values:
  assumes "input_paths a = ps" "ps \<noteq> []" "output_dir a = Some out"
  shows "drop (length (pb_values a)) (pb_values (fst (process env (a, w)))) =
           0 # [1..<Suc (length ps)]"
    and "pb_maximum (fst (process env (a, w))) = length ps"
  using assms
  by (simp_all add: Let_def append_log_def process_loop_values process_loop_maximum)

lemma process_world:
  assumes "input_paths a = ps" "ps \<noteq> []" "output_dir a = Some out"
  shows "snd (process env (a, w)) = run_world (\<lambda>p. process_image env p out) ps w"
  using assms
  by (simp add: Let_def append_log_def process_loop_world)

lemma start_process_new_lines:
  assumes "input_paths a = ps" "ps \<noteq> []" "output_dir a = Some out"
  shows "new_lines a (fst (start_process env (a, w))) =
           ToProcess (length ps) #
           concat (map (\<lambda>(p, r). [Processing (name p), result_line p r])
                     (zip ps (outcomes (\<lambda>p. process_image_v2 env p out) ps w))) @ [Finished]"
  using assms
  by (simp add: new_lines_def Let_def append_log_def set_progress_def process_all_loop_log)

lemma start_process_calls:
  assumes "input_paths a = ps" "ps \<noteq> []" "output_dir a = Some out"
  shows "drop (length (progress_calls a)) (progress_calls (fst (start_process env (a, w)))) =
           0 # map (fraction_of (length ps)) [1..<Suc (length ps)] @ [1]"
  using assms
  by (simp add: Let_def append_log_def set_progress_def process_all_loop_calls)

lemma start_process_world:
  assumes "input_paths a = ps" "ps \<noteq> []" "output_dir a = Some out"
  shows "snd (start_process env (a, w)) = run_world (\<lambda>p. process_image_v2 env p out) ps w"
  using assms
  by (simp add: Let_def append_log_def set_progress_def process_all_loop_world)

lemma results_process:
  assumes "input_paths a = ps" "ps \<noteq> []" "output_dir a = Some out"
  shows "results (new_lines a (fst (process env (a, w)))) =
           lines_of ps (outcomes (\<lambda>p. process_image env p out) ps w)"
proof -
  have "results (Starting n # ls @ [Finished]) = results ls" for n ls
    by (simp add: results_def)
  then show ?thesis
    using process_new_lines [OF assms] results_lines_of by simp
qed

lemma results_start_process:
  assumes "input_paths a = ps" "ps \<noteq> []" "output_dir a = Some out"
  shows "results (new_lines a (fst (start_process env (a, w)))) =
           lines_of ps (outcomes (\<lambda>p. process_image_v2 env p out) ps w)"
proof -
  have "results (ToProcess n # ls @ [Finished]) = results ls" for n ls
    by (simp add: results_def)
  then show ?thesis
    using start_process_new_lines [OF assms] results_interleaved by simp
qed

lemma fraction_of_full: "0 < n \<Longrightarrow> fraction_of n n = 1"
  by (simp add: fraction_of_def)

lemma fractions_increasing: "0 < n \<Longrightarrow> sorted_wrt (<) (map (fraction_of n) [k..<m])"
proof -
  assume "0 < n"
  then have "fraction_of n i < fraction_of n j" if "i < j" for i j
    using that by (simp add: fraction_of_def divide_strict_right_mono)
  moreover have "sorted_wrt (<) [k..<m]"
    by (simp add: sorted_wrt_upt)
  ultimately show ?thesis
    by (simp add: sorted_wrt_map sorted_wrt_mono_rel [of "[k..<m]" "(<)"])
qed

lemma outcomes_stuck:
  assumes "\<And>p. step p w1 = (Inl e, w1)"
  shows "outcomes step ps w1 = map (\<lambda>p. Inl e) ps \<and> run_world step ps w1 = w1"
  by (induction ps) (simp_all add: assms)

lemma outcomes_all_fail:
  assumes "\<And>p. step p w = (Inl e, w1)" and "\<And>p. step p w1 = (Inl e, w1)"
  shows "outcomes step ps w = map (\<lambda>p. Inl e) ps \<and>
         run_world step ps w = (if ps = [] then w else w1)"
  using outcomes_stuck [of step w1 e, OF assms(2)]
  by (cases ps) (simp_all add: assms(1))

lemma lines_of_all_fail: "lines_of ps (map (\<lambda>p. Inl e) ps) = map (\<lambda>p. Failure (name p) e) ps"
  by (induction ps) (simp_all add: lines_of_def result_line_def)

lemma interleaved_all_fail:
  "concat (map (\<lambda>(p, r). [Processing (name p), result_line p r]) (zip ps (map (\<lambda>p. Inl e) ps))) =
     concat (map (\<lambda>p. [Processing (name p), Failure (name p) e]) ps)"
  by (induction ps) (simp_all add: result_line_def)

lemma process_last_value:
  assumes "input_paths a = ps" "ps \<noteq> []" "output_dir a = Some out"
  shows "last (pb_values (fst (process env (a, w)))) = length ps"
proof -
  have "pb_values (fst (process env (a, w))) =
      (pb_values a @ 0 # [1..<length ps]) @ [length ps]"
    using assms by (simp add: Let_def append_log_def process_loop_values Suc_le_eq)
  then show ?thesis
    by (simp only: last_snoc)
qed

lemma start_process_last_call:
  assumes "input_paths a = ps" "ps \<noteq> []" "output_dir a = Some out"
  shows "last (progress_calls (fst (start_process env (a, w)))) = 1"
  using assms by (simp add: Let_def set_progress_def)

section \<open>Claims about the batch processor\<close>

declare process.simps [simp del] process_all.simps [simp del] start_process.simps [simp del]

text \<open>
  C1. The claim: a failure to create the output directory aborts the run before any item
  is attempted and is never turned into a failure result of an item. In the code the
  directory is created by \<^verbatim>\<open>process_image\<close>, inside the \<^verbatim>\<open>try\<close> of the loop: with three
  inputs and a directory that cannot be created, the run logs three item failures and
  finishes.
\<close>

theorem mkdir_failure_logged_per_item:
  "fst (mkdir env_locked [''out''] world3) = Some MkdirError \<and>
   output_dir app3 = Some [''out''] \<and>
   log (fst (process env_locked (app3, world3))) =
     [Starting 3, Failure ''a.jpg'' MkdirError, Failure ''b.png'' MkdirError,
      Failure ''a.png'' MkdirError, Finished] \<and>
   pb_values (fst (process env_locked (app3, world3))) = [0, 1, 2, 3] \<and>
   log (fst (start_process env_locked (app3, world3))) =
     [ToProcess 3, Processing ''a.jpg'', Failure ''a.jpg'' MkdirError,
      Processing ''b.png'', Failure ''b.png'' MkdirError,
      Processing ''a.png'', Failure ''a.png'' MkdirError, Finished]"
proof -
  have "fst (mkdir env_locked [''out''] world3) = Some MkdirError"
    by code_simp
  moreover have "output_dir app3 = Some [''out'']"
    by (simp add: app3_def app0_def)
  moreover have "log (fst (process env_locked (app3, world3))) =
     [Starting 3, Failure ''a.jpg'' MkdirError, Failure ''b.png'' MkdirError,
      Failure ''a.png'' MkdirError, Finished]"
    by code_simp
  moreover have "pb_values (fst (process env_locked (app3, world3))) = [0, 1, 2, 3]"
    by code_simp
  moreover have "log (fst (start_process env_locked (app3, world3))) =
     [ToProcess 3, Processing ''a.jpg'', Failure ''a.jpg'' MkdirError,
      Processing ''b.png'', Failure ''b.png'' MkdirError,
      Processing ''a.png'', Failure ''a.png'' MkdirError, Finished]"
    by code_simp
  ultimately show ?thesis by (intro conjI) assumption+
qed

text \<open>
  C1, amended. When the output directory cannot be created, every item of the run is
  attempted and gets one failure result that carries the directory error. No file is
  written: the files are as before the run. The world after the run is the one the first
  failed attempt to create the directory has left, in which missing ancestors of the
  directory may have been created. The run goes through all items, logs its last line
  and sets the progress to the full value (in \<^verbatim>\<open>App.process\<close> the value and the maximum are
  both the number of items). The run returns a state in every case: nothing is raised
  past it. This holds for \<^verbatim>\<open>App.process\<close> and for \<^verbatim>\<open>NoBackApp.start_process\<close>.
\<close>

theorem mkdir_failure_fails_every_item:
  assumes "input_paths a = ps" and "ps \<noteq> []" and "output_dir a = Some out"
    and "fst (mkdir env out w) = Some e"
  shows "new_lines a (fst (process env (a, w))) =
           Starting (length ps) # map (\<lambda>p. Failure (name p) MkdirError) ps @ [Finished] \<and>
         snd (process env (a, w)) = snd (mkdir env out w) \<and>
         files (snd (process env (a, w))) = files w \<and>
         pb_maximum (fst (process env (a, w))) = length ps \<and>
         drop (length (pb_values a)) (pb_values (fst (process env (a, w)))) =
           0 # [1..<Suc (length ps)] \<and>
         last (pb_values (fst (process env (a, w)))) = length ps \<and>
         new_lines a (fst (start_process env (a, w))) =
           ToProcess (length ps) #
           concat (map (\<lambda>p. [Processing (name p), Failure (name p) MkdirError]) ps) @ [Finished] \<and>
         snd (start_process env (a, w)) = snd (mkdir env out w) \<and>
         files (snd (start_process env (a, w))) = files w \<and>
         last (progress_calls (fst (start_process env (a, w)))) = 1"
proof -
  let ?w1 = "snd (mkdir env out w)"
  from assms(4) have e: "e = MkdirError" by (rule mkdir_error)
  from assms(4) have again: "fst (mkdir env out ?w1) = Some e" "snd (mkdir env out ?w1) = ?w1"
    using mkdir_fails_again [OF assms(4)] by simp_all
  have s1: "process_image env p out w = (Inl MkdirError, ?w1)"
    and t1: "process_image env p out ?w1 = (Inl MkdirError, ?w1)" for p
    using process_image_mkdir_fails [OF assms(4), of p]
      process_image_mkdir_fails [OF again(1), of p] again(2) e by simp_all
  have s2: "process_image_v2 env p out w = (Inl MkdirError, ?w1)"
    and t2: "process_image_v2 env p out ?w1 = (Inl MkdirError, ?w1)" for p
    using process_image_v2_mkdir_fails [OF assms(4), of p]
      process_image_v2_mkdir_fails [OF again(1), of p] again(2) e by simp_all
  have o1: "outcomes (\<lambda>p. process_image env p out) ps w = map (\<lambda>p. Inl MkdirError) ps"
    and w1: "run_world (\<lambda>p. process_image env p out) ps w = ?w1"
    using outcomes_all_fail [of "\<lambda>p. process_image env p out" w MkdirError ?w1 ps, OF s1 t1]
      assms(2) by simp_all
  have o2: "outcomes (\<lambda>p. process_image_v2 env p out) ps w = map (\<lambda>p. Inl MkdirError) ps"
    and w2: "run_world (\<lambda>p. process_image_v2 env p out) ps w = ?w1"
    using outcomes_all_fail [of "\<lambda>p. process_image_v2 env p out" w MkdirError ?w1 ps, OF s2 t2]
      assms(2) by simp_all
  have "new_lines a (fst (process env (a, w))) =
          Starting (length ps) # map (\<lambda>p. Failure (name p) MkdirError) ps @ [Finished]"
    using process_new_lines [OF assms(1-3), of env w] o1 lines_of_all_fail by simp
  moreover have p1: "snd (process env (a, w)) = ?w1"
    using process_world [OF assms(1-3), of env w] w1 by simp
  moreover have "files (snd (process env (a, w))) = files w"
    using p1 by (simp add: mkdir_files)
  moreover have "pb_maximum (fst (process env (a, w))) = length ps"
    by (rule process_values(2) [OF assms(1-3)])
  moreover have "drop (length (pb_values a)) (pb_values (fst (process env (a, w)))) =
          0 # [1..<Suc (length ps)]"
    by (rule process_values(1) [OF assms(1-3)])
  moreover have "last (pb_values (fst (process env (a, w)))) = length ps"
    by (rule process_last_value [OF assms(1-3)])
  moreover have "new_lines a (fst (start_process env (a, w))) =
          ToProcess (length ps) #
          concat (map (\<lambda>p. [Processing (name p), Failure (name p) MkdirError]) ps) @ [Finished]"
    using start_process_new_lines [OF assms(1-3), of env w] o2 interleaved_all_fail by simp
  moreover have p2: "snd (start_process env (a, w)) = ?w1"
    using start_process_world [OF assms(1-3), of env w] w2 by simp
  moreover have "files (snd (start_process env (a, w))) = files w"
    using p2 by (simp add: mkdir_files)
  moreover have "last (progress_calls (fst (start_process env (a, w)))) = 1"
    by (rule start_process_last_call [OF assms(1-3)])
  ultimately show ?thesis by (intro conjI) assumption+
qed

theorem mkdir_failure_fails_every_item_witness:
  "input_paths app_new = [[''in'', ''a.jpg''], [''in'', ''b.png''], [''in'', ''a.png'']] \<and>
   output_dir app_new = Some [''new'', ''x''] \<and>
   fst (mkdir env_half [''new'', ''x''] world3) = Some MkdirError \<and>
   new_lines app_new (fst (process env_half (app_new, world3))) =
     [Starting 3, Failure ''a.jpg'' MkdirError, Failure ''b.png'' MkdirError,
      Failure ''a.png'' MkdirError, Finished] \<and>
   dirs (snd (process env_half (app_new, world3))) = {[], [''in''], [''new'']} \<and>
   files (snd (process env_half (app_new, world3))) = files world3 \<and>
   pb_maximum (fst (process env_half (app_new, world3))) = 3 \<and>
   last (pb_values (fst (process env_half (app_new, world3)))) = 3 \<and>
   dirs (snd (start_process env_half (app_new, world3))) = {[], [''in''], [''new'']} \<and>
   files (snd (start_process env_half (app_new, world3))) = files world3 \<and>
   last (progress_calls (fst (start_process env_half (app_new, world3)))) = 1"
proof -
  let ?ps = "[[''in'', ''a.jpg''], [''in'', ''b.png''], [''in'', ''a.png'']] :: path list"
  have h1: "input_paths app_new = ?ps"
    by (simp add: app_new_def app3_def app0_def)
  have h2: "?ps \<noteq> []"
    by simp
  have h3: "output_dir app_new = Some [''new'', ''x'']"
    by (simp add: app_new_def app3_def app0_def)
  have h4: "fst (mkdir env_half [''new'', ''x''] world3) = Some MkdirError"
    by code_simp
  have d: "dirs (snd (mkdir env_half [''new'', ''x''] world3)) = {[], [''in''], [''new'']}"
    by code_simp
  have n: "map (\<lambda>p. Failure (name p) MkdirError) ?ps =
           [Failure ''a.jpg'' MkdirError, Failure ''b.png'' MkdirError, Failure ''a.png'' MkdirError]"
    by (simp add: name_def)
  have len: "length ?ps = 3"
    by simp
  note run = mkdir_failure_fails_every_item [OF h1 h2 h3 h4, unfolded len n]
  from run have c1: "new_lines app_new (fst (process env_half (app_new, world3))) =
     [Starting 3, Failure ''a.jpg'' MkdirError, Failure ''b.png'' MkdirError,
      Failure ''a.png'' MkdirError, Finished]"
    by simp
  from run d have c2: "dirs (snd (process env_half (app_new, world3))) = {[], [''in''], [''new'']}"
    by simp
  from run have c3: "files (snd (process env_half (app_new, world3))) = files world3"
    by (elim conjE) assumption
  from run have c4: "pb_maximum (fst (process env_half (app_new, world3))) = 3"
    by (elim conjE) assumption
  from run have c5: "last (pb_values (fst (process env_half (app_new, world3)))) = 3"
    by (elim conjE) assumption
  from run d have c6: "dirs (snd (start_process env_half (app_new, world3))) = {[], [''in''], [''new'']}"
    by simp
  from run have c7: "files (snd (start_process env_half (app_new, world3))) = files world3"
    by (elim conjE) assumption
  from run have c8: "last (progress_calls (fst (start_process env_half (app_new, world3)))) = 1"
    by (elim conjE) assumption
  from h1 h3 h4 c1 c2 c3 c4 c5 c6 c7 c8 show ?thesis by (intro conjI) assumption+
qed

text \<open>
  C2. The claim: after a run over N items the progress observer has been called exactly N
  times, with strictly increasing values. \<^verbatim>\<open>_process_all\<close> calls \<^verbatim>\<open>set_progress\<close> once before
  the loop with 0 and once more after it with 1: on three items there are five calls, and
  the last two carry the same value.
\<close>

theorem set_progress_called_before_and_after_the_loop:
  "length (input_paths app3) = 3 \<and>
   progress_calls (fst (start_process env_ok (app3, world3))) = [0, 1 / 3, 2 / 3, 1, 1] \<and>
   \<not> sorted_wrt (<) (progress_calls (fst (start_process env_ok (app3, world3))))"
proof -
  have "length (input_paths app3) = 3"
    by (simp add: app3_def app0_def)
  moreover have c: "progress_calls (fst (start_process env_ok (app3, world3))) = [0, 1 / 3, 2 / 3, 1, 1]"
    by code_simp
  moreover have "\<not> sorted_wrt (<) (progress_calls (fst (start_process env_ok (app3, world3))))"
    unfolding c by simp
  ultimately show ?thesis by (intro conjI) assumption+
qed

text \<open>
  C2, amended. In a run over a non-empty work list of N items the progress is set once
  after each item, to i of N after item i: these N values increase strictly and the last
  one is the full value. Besides, the progress is set to 0 once before the first item,
  and \<^verbatim>\<open>_process_all\<close> sets it to 1 once more after the last line of the log. The result
  lines of the run are N, one for each item, in the order of the work list.
\<close>

theorem progress_and_results_per_item:
  assumes "input_paths a = ps" and "ps \<noteq> []" and "output_dir a = Some out"
  shows "pb_maximum (fst (process env (a, w))) = length ps \<and>
         drop (length (pb_values a)) (pb_values (fst (process env (a, w)))) =
           0 # [1..<Suc (length ps)] \<and>
         drop (length (progress_calls a)) (progress_calls (fst (start_process env (a, w)))) =
           0 # map (fraction_of (length ps)) [1..<Suc (length ps)] @ [1] \<and>
         length (map (fraction_of (length ps)) [1..<Suc (length ps)]) = length ps \<and>
         sorted_wrt (<) (map (fraction_of (length ps)) [1..<Suc (length ps)]) \<and>
         last (map (fraction_of (length ps)) [1..<Suc (length ps)]) = 1 \<and>
         map item_of (results (new_lines a (fst (process env (a, w))))) = map name ps \<and>
         map item_of (results (new_lines a (fst (start_process env (a, w))))) = map name ps"
proof -
  from assms(2) have pos: "0 < length ps" by simp
  have "pb_maximum (fst (process env (a, w))) = length ps"
    by (rule process_values(2) [OF assms])
  moreover have "drop (length (pb_values a)) (pb_values (fst (process env (a, w)))) =
           0 # [1..<Suc (length ps)]"
    by (rule process_values(1) [OF assms])
  moreover have "drop (length (progress_calls a)) (progress_calls (fst (start_process env (a, w)))) =
           0 # map (fraction_of (length ps)) [1..<Suc (length ps)] @ [1]"
    by (rule start_process_calls [OF assms])
  moreover have "length (map (fraction_of (length ps)) [1..<Suc (length ps)]) = length ps"
    by (simp del: upt_Suc)
  moreover have "sorted_wrt (<) (map (fraction_of (length ps)) [1..<Suc (length ps)])"
    using pos by (rule fractions_increasing)
  moreover have "last (map (fraction_of (length ps)) [1..<Suc (length ps)]) = 1"
  proof -
    from assms(2) have "[1..<Suc (length ps)] = [1..<length ps] @ [length ps]"
      by (simp add: Suc_le_eq)
    then have "map (fraction_of (length ps)) [1..<Suc (length ps)] =
        map (fraction_of (length ps)) [1..<length ps] @ [fraction_of (length ps) (length ps)]"
      by (simp only: map_append list.map)
    then show ?thesis
      by (simp only: last_snoc fraction_of_full [OF pos])
  qed
  moreover have "map item_of (results (new_lines a (fst (process env (a, w))))) = map name ps"
    using results_process [OF assms, of env w]
    by (simp add: items_lines_of length_outcomes)
  moreover have "map item_of (results (new_lines a (fst (start_process env (a, w))))) = map name ps"
    using results_start_process [OF assms, of env w]
    by (simp add: items_lines_of length_outcomes)
  ultimately show ?thesis by (intro conjI) assumption+
qed

theorem progress_and_results_per_item_witness:
  "input_paths app3 = [[''in'', ''a.jpg''], [''in'', ''b.png''], [''in'', ''a.png'']] \<and>
   output_dir app3 = Some [''out''] \<and>
   pb_maximum (fst (process env_ok (app3, world3))) = 3 \<and>
   pb_values (fst (process env_ok (app3, world3))) = [0, 1, 2, 3] \<and>
   progress_calls (fst (start_process env_ok (app3, world3))) = [0, 1 / 3, 2 / 3, 1, 1] \<and>
   map item_of (results (new_lines app3 (fst (process env_ok (app3, world3))))) =
     [''a.jpg'', ''b.png'', ''a.png''] \<and>
   map item_of (results (new_lines app3 (fst (start_process env_ok (app3, world3))))) =
     [''a.jpg'', ''b.png'', ''a.png'']"
proof -
  have h1: "input_paths app3 = [[''in'', ''a.jpg''], [''in'', ''b.png''], [''in'', ''a.png'']]"
    by (simp add: app3_def app0_def)
  have h2: "[[''in'', ''a.jpg''], [''in'', ''b.png''], [''in'', ''a.png'']] \<noteq> ([] :: path list)"
    by simp
  have h3: "output_dir app3 = Some [''out'']"
    by (simp add: app3_def app0_def)
  have e: "pb_values app3 = []" "progress_calls app3 = []"
    by (simp_all add: app3_def app0_def)
  have n: "map name [[''in'', ''a.jpg''], [''in'', ''b.png''], [''in'', ''a.png'']] =
      [''a.jpg'', ''b.png'', ''a.png'']"
    by (simp add: name_def)
  have u: "[1..<Suc 3] = [1, 2, 3]"
    by (simp add: upt_rec)
  have f: "map (fraction_of 3) [1, 2, 3] = [1 / 3, 2 / 3, 1]"
    by (simp add: fraction_of_def)
  have len: "length [[''in'', ''a.jpg''], [''in'', ''b.png''], [''in'', ''a.png'']] = 3"
    by simp
  note run = progress_and_results_per_item [OF h1 h2 h3, of env_ok world3, unfolded len u f n]
  from run have c1: "pb_maximum (fst (process env_ok (app3, world3))) = 3"
    by simp
  from run e have c2: "pb_values (fst (process env_ok (app3, world3))) = [0, 1, 2, 3]"
    by simp
  from run e have c3: "progress_calls (fst (start_process env_ok (app3, world3))) =
      [0, 1 / 3, 2 / 3, 1, 1]"
    by simp
  from run n have c4: "map item_of (results (new_lines app3 (fst (process env_ok (app3, world3))))) =
     [''a.jpg'', ''b.png'', ''a.png'']"
    by simp
  from run n have c5: "map item_of (results (new_lines app3 (fst (start_process env_ok (app3, world3))))) =
     [''a.jpg'', ''b.png'', ''a.png'']"
    by simp
  from h1 h3 c1 c2 c3 c4 c5 show ?thesis by (intro conjI) assumption+
qed

text \<open>
  C3. An error raised for one item (by the transform, or by any other step of
  \<^verbatim>\<open>process_image\<close>) is logged as the failure result of that item and the run goes on. In
  each version, on its own: the result lines are one for each item of the work list, in
  its order; the line of every item is the line of the outcome \<^verbatim>\<open>process_image\<close> has for
  that item in the world the items before it have left, so every item is attempted, once;
  when \<^verbatim>\<open>process_image\<close> raises \<open>e\<close> for item \<open>i\<close>, the line of item \<open>i\<close> is its failure with
  \<open>e\<close>; the log ends with the final line and the progress ends at the full value.
\<close>

theorem item_failure_does_not_abort_run:
  assumes "input_paths a = ps" and "output_dir a = Some out" and "i < length ps"
  shows "(fst (process_image env (ps ! i) out
                 (run_world (\<lambda>p. process_image env p out) (take i ps) w)) = Inl e \<longrightarrow>
            results (new_lines a (fst (process env (a, w)))) ! i = Failure (name (ps ! i)) e) \<and>
         length (results (new_lines a (fst (process env (a, w))))) = length ps \<and>
         map item_of (results (new_lines a (fst (process env (a, w))))) = map name ps \<and>
         (\<forall>k<length ps. results (new_lines a (fst (process env (a, w)))) ! k =
              result_line (ps ! k) (fst (process_image env (ps ! k) out
                 (run_world (\<lambda>p. process_image env p out) (take k ps) w)))) \<and>
         last (new_lines a (fst (process env (a, w)))) = Finished \<and>
         fraction_of (pb_maximum (fst (process env (a, w))))
           (last (pb_values (fst (process env (a, w))))) = 1 \<and>
         (fst (process_image_v2 env (ps ! i) out
                 (run_world (\<lambda>p. process_image_v2 env p out) (take i ps) w)) = Inl e2 \<longrightarrow>
            results (new_lines a (fst (start_process env (a, w)))) ! i =
              Failure (name (ps ! i)) e2) \<and>
         length (results (new_lines a (fst (start_process env (a, w))))) = length ps \<and>
         map item_of (results (new_lines a (fst (start_process env (a, w))))) = map name ps \<and>
         (\<forall>k<length ps. results (new_lines a (fst (start_process env (a, w)))) ! k =
              result_line (ps ! k) (fst (process_image_v2 env (ps ! k) out
                 (run_world (\<lambda>p. process_image_v2 env p out) (take k ps) w)))) \<and>
         last (new_lines a (fst (start_process env (a, w)))) = Finished \<and>
         last (progress_calls (fst (start_process env (a, w)))) = 1"
proof -
  from assms(3) have ne: "ps \<noteq> []" by auto
  note run = assms(1) ne assms(2)
  let ?s1 = "\<lambda>p. process_image env p out"
  let ?s2 = "\<lambda>p. process_image_v2 env p out"
  have r1: "results (new_lines a (fst (process env (a, w)))) = lines_of ps (outcomes ?s1 ps w)"
    by (rule results_process [OF run])
  have r2: "results (new_lines a (fst (start_process env (a, w)))) =
      lines_of ps (outcomes ?s2 ps w)"
    by (rule results_start_process [OF run])
  have line: "lines_of ps (outcomes step ps w) ! k =
      result_line (ps ! k) (fst (step (ps ! k) (run_world step (take k ps) w)))"
    if "k < length ps" for k step
    using that by (simp add: lines_of_nth length_outcomes outcomes_nth)
  have a1: "fst (process_image env (ps ! i) out (run_world ?s1 (take i ps) w)) = Inl e \<longrightarrow>
      results (new_lines a (fst (process env (a, w)))) ! i = Failure (name (ps ! i)) e"
    using r1 line [OF assms(3), of ?s1] by (simp add: result_line_def)
  have a2: "length (results (new_lines a (fst (process env (a, w))))) = length ps"
    using r1 by (simp add: length_lines_of length_outcomes)
  have a3: "map item_of (results (new_lines a (fst (process env (a, w))))) = map name ps"
    using r1 by (simp add: items_lines_of length_outcomes)
  have a4: "\<forall>k<length ps. results (new_lines a (fst (process env (a, w)))) ! k =
      result_line (ps ! k) (fst (process_image env (ps ! k) out (run_world ?s1 (take k ps) w)))"
    using r1 line [of _ ?s1] by simp
  have a5: "last (new_lines a (fst (process env (a, w)))) = Finished"
    using process_new_lines [OF run, of env w] by simp
  have a6: "fraction_of (pb_maximum (fst (process env (a, w))))
      (last (pb_values (fst (process env (a, w))))) = 1"
    using process_values(2) [OF run, of env w] process_last_value [OF run, of env w] ne
    by (simp add: fraction_of_full)
  have b1: "fst (process_image_v2 env (ps ! i) out (run_world ?s2 (take i ps) w)) = Inl e2 \<longrightarrow>
      results (new_lines a (fst (start_process env (a, w)))) ! i = Failure (name (ps ! i)) e2"
    using r2 line [OF assms(3), of ?s2] by (simp add: result_line_def)
  have b2: "length (results (new_lines a (fst (start_process env (a, w))))) = length ps"
    using r2 by (simp add: length_lines_of length_outcomes)
  have b3: "map item_of (results (new_lines a (fst (start_process env (a, w))))) = map name ps"
    using r2 by (simp add: items_lines_of length_outcomes)
  have b4: "\<forall>k<length ps. results (new_lines a (fst (start_process env (a, w)))) ! k =
      result_line (ps ! k) (fst (process_image_v2 env (ps ! k) out (run_world ?s2 (take k ps) w)))"
    using r2 line [of _ ?s2] by simp
  have b5: "last (new_lines a (fst (start_process env (a, w)))) = Finished"
    using start_process_new_lines [OF run, of env w] by simp
  have b6: "last (progress_calls (fst (start_process env (a, w)))) = 1"
    by (rule start_process_last_call [OF run])
  from a1 a2 a3 a4 a5 a6 b1 b2 b3 b4 b5 b6 show ?thesis by (intro conjI) assumption+
qed

theorem item_failure_does_not_abort_run_witness:
  "input_paths app3 = [[''in'', ''a.jpg''], [''in'', ''b.png''], [''in'', ''a.png'']] \<and>
   output_dir app3 = Some [''out''] \<and>
   fst (process_image env_ok [''in'', ''b.png''] [''out'']
         (run_world (\<lambda>p. process_image env_ok p [''out'']) [[''in'', ''a.jpg'']] world3)) =
     Inl TransformError \<and>
   fst (process_image_v2 env_ok [''in'', ''b.png''] [''out'']
         (run_world (\<lambda>p. process_image_v2 env_ok p [''out'']) [[''in'', ''a.jpg'']] world3)) =
     Inl TransformError \<and>
   length (results (new_lines app3 (fst (process env_ok (app3, world3))))) = 3 \<and>
   results (new_lines app3 (fst (process env_ok (app3, world3)))) ! 0 =
     Success ''a.jpg'' ''a_nobg.png'' \<and>
   results (new_lines app3 (fst (process env_ok (app3, world3)))) ! 1 =
     Failure ''b.png'' TransformError \<and>
   results (new_lines app3 (fst (process env_ok (app3, world3)))) ! 2 =
     Success ''a.png'' ''a_nobg.png'' \<and>
   length (results (new_lines app3 (fst (start_process env_ok (app3, world3))))) = 3 \<and>
   results (new_lines app3 (fst (start_process env_ok (app3, world3)))) ! 0 =
     Success ''a.jpg'' ''a_nobg.png'' \<and>
   results (new_lines app3 (fst (start_process env_ok (app3, world3)))) ! 1 =
     Failure ''b.png'' TransformError \<and>
   results (new_lines app3 (fst (start_process env_ok (app3, world3)))) ! 2 =
     Success ''a.png'' ''a_nobg.png'' \<and>
   last (progress_calls (fst (start_process env_ok (app3, world3)))) = 1 \<and>
   input_paths app_chain = [[''in'', ''a.jpg''], [''out'', ''a_nobg.png'']] \<and>
   fst (process_image_v2 env_ok [''out'', ''a_nobg.png''] [''out'']
         (run_world (\<lambda>p. process_image_v2 env_ok p [''out'']) [[''in'', ''a.jpg'']] world3)) =
     Inl TransformError \<and>
   results (new_lines app_chain (fst (start_process env_ok (app_chain, world3)))) ! 1 =
     Failure ''a_nobg.png'' TransformError \<and>
   results (new_lines app_chain (fst (process env_ok (app_chain, world3)))) ! 1 =
     Success ''a_nobg.png'' ''a_nobg_nobg.png''"
proof -
  let ?ps = "[[''in'', ''a.jpg''], [''in'', ''b.png''], [''in'', ''a.png'']] :: path list"
  let ?qs = "[[''in'', ''a.jpg''], [''out'', ''a_nobg.png'']] :: path list"
  let ?s1 = "\<lambda>p. process_image env_ok p [''out'']"
  let ?s2 = "\<lambda>p. process_image_v2 env_ok p [''out'']"
  have h1: "input_paths app3 = ?ps"
    by (simp add: app3_def app0_def)
  have h2: "output_dir app3 = Some [''out'']"
    by (simp add: app3_def app0_def)
  have g1: "input_paths app_chain = ?qs"
    by (simp add: app_chain_def app0_def)
  have g2: "output_dir app_chain = Some [''out'']"
    by (simp add: app_chain_def app0_def)
  have k0: "(0::nat) < length ?ps" and k1: "(1::nat) < length ?ps" and k2: "(2::nat) < length ?ps"
    and j1: "(1::nat) < length ?qs"
    by simp_all
  have len: "length ?ps = 3"
    by simp
  have h4: "fst (process_image env_ok [''in'', ''b.png''] [''out'']
      (run_world ?s1 [[''in'', ''a.jpg'']] world3)) = Inl TransformError"
    by code_simp
  have h5: "fst (process_image_v2 env_ok [''in'', ''b.png''] [''out'']
      (run_world ?s2 [[''in'', ''a.jpg'']] world3)) = Inl TransformError"
    by code_simp
  have g5: "fst (process_image_v2 env_ok [''out'', ''a_nobg.png''] [''out'']
      (run_world ?s2 [[''in'', ''a.jpg'']] world3)) = Inl TransformError"
    by code_simp
  have t: "?ps ! 1 = [''in'', ''b.png'']" "take 1 ?ps = [[''in'', ''a.jpg'']]"
    "?qs ! 1 = [''out'', ''a_nobg.png'']" "take 1 ?qs = [[''in'', ''a.jpg'']]"
    "name [''in'', ''b.png''] = ''b.png''" "name [''out'', ''a_nobg.png''] = ''a_nobg.png''"
    by (simp_all add: name_def)
  note main = item_failure_does_not_abort_run
    [OF h1 h2 k1, of env_ok world3 TransformError TransformError]
  note chain = item_failure_does_not_abort_run
    [OF g1 g2 j1, of env_ok world3 TransformError TransformError]
  note a1 = main [THEN conjunct1]
  note r1 = main [THEN conjunct2]
  note a2 = r1 [THEN conjunct1]
  note r3 = r1 [THEN conjunct2, THEN conjunct2]
  note a4 = r3 [THEN conjunct1]
  note r6 = r3 [THEN conjunct2, THEN conjunct2, THEN conjunct2]
  note b1 = r6 [THEN conjunct1]
  note b2 = r6 [THEN conjunct2, THEN conjunct1]
  note b4 = r6 [THEN conjunct2, THEN conjunct2, THEN conjunct2, THEN conjunct1]
  note b6 = r6 [THEN conjunct2, THEN conjunct2, THEN conjunct2, THEN conjunct2, THEN conjunct2]
  note ca4 = chain [THEN conjunct2, THEN conjunct2, THEN conjunct2, THEN conjunct1]
  note cb1 = chain [THEN conjunct2, THEN conjunct2, THEN conjunct2, THEN conjunct2,
    THEN conjunct2, THEN conjunct2, THEN conjunct1]
  have e0: "result_line (?ps ! 0) (fst (process_image env_ok (?ps ! 0) [''out'']
      (run_world ?s1 (take 0 ?ps) world3))) = Success ''a.jpg'' ''a_nobg.png''"
    by code_simp
  have e2: "result_line (?ps ! 2) (fst (process_image env_ok (?ps ! 2) [''out'']
      (run_world ?s1 (take 2 ?ps) world3))) = Success ''a.png'' ''a_nobg.png''"
    by code_simp
  have f0: "result_line (?ps ! 0) (fst (process_image_v2 env_ok (?ps ! 0) [''out'']
      (run_world ?s2 (take 0 ?ps) world3))) = Success ''a.jpg'' ''a_nobg.png''"
    by code_simp
  have f2: "result_line (?ps ! 2) (fst (process_image_v2 env_ok (?ps ! 2) [''out'']
      (run_world ?s2 (take 2 ?ps) world3))) = Success ''a.png'' ''a_nobg.png''"
    by code_simp
  have q1: "result_line (?qs ! 1) (fst (process_image env_ok (?qs ! 1) [''out'']
      (run_world ?s1 (take 1 ?qs) world3))) = Success ''a_nobg.png'' ''a_nobg_nobg.png''"
    by code_simp
  note c0 = trans [OF a4 [rule_format, OF k0] e0]
  note c1 = a1 [unfolded t, THEN mp, OF h4]
  note c2 = trans [OF a4 [rule_format, OF k2] e2]
  note d0 = trans [OF b4 [rule_format, OF k0] f0]
  note d1 = b1 [unfolded t, THEN mp, OF h5]
  note d2 = trans [OF b4 [rule_format, OF k2] f2]
  note x1 = cb1 [unfolded t, THEN mp, OF g5]
  note x2 = trans [OF ca4 [rule_format, OF j1] q1]
  from h1 h2 h4 h5 a2 [unfolded len] c0 c1 c2 b2 [unfolded len] d0 d1 d2 b6 g1 g5 x1 x2
  show ?thesis by (intro conjI) assumption+
qed

lemma rfind_None: "rfind c xs = None \<longleftrightarrow> c \<notin> set xs"
  by (induction xs) (auto split: option.splits)

lemma rfind_last:
  "c \<notin> set ext \<Longrightarrow> rfind c (base @ c # ext) = Some (length base)"
  by (induction base) (simp_all add: rfind_None [THEN iffD2])

lemma stem_plain:
  assumes "base \<noteq> []" and "ext \<noteq> []" and "CHR ''.'' \<notin> set ext"
  shows "stem (dir @ [base @ CHR ''.'' # ext]) = base"
proof -
  have "rfind (CHR ''.'') (base @ CHR ''.'' # ext) = Some (length base)"
    using assms(3) by (rule rfind_last)
  moreover have "0 < length base \<and> length base < length (base @ CHR ''.'' # ext) - 1"
    using assms(1,2) by (cases ext) simp_all
  ultimately show ?thesis
    by (simp add: stem_def name_def)
qed

lemma open_rgba_Inr: "open_rgba w p = Inr im \<Longrightarrow> files w p = Some (Picture im)"
  by (auto simp: open_rgba_def split: option.splits filedata.splits)

text \<open>
  C6. In both versions \<^verbatim>\<open>process_image\<close> succeeds when the output directory can be made,
  the input decodes, the transform returns and the output can be written; it returns the
  output directory followed by the stem of the input's name, \<^verbatim>\<open>_nobg\<close> and \<^verbatim>\<open>.png\<close>, and
  leaves the world in which that path holds the image saved: the transform's result in
  \<^verbatim>\<open>src/noback.py\<close>, its crop in \<^verbatim>\<open>Version 0002\<close>. A file that was at that path is replaced,
  no other file changes, and nothing reports the replacement. Conversely, whenever a
  version returns a path, it is that path and the file there is the image saved. For an
  input name \<open>base.ext\<close> the stem is \<open>base\<close>, whatever the extension and its casing.
\<close>

theorem output_name_and_overwrite:
  "(fst (mkdir env out w) = None \<and> files w p = Some (Picture im) \<and>
    rembg_remove env im = Some t \<and> op = out @ [stem p @ ''_nobg.png''] \<and>
    op \<notin> dirs (snd (mkdir env out w)) \<and> may_write env op \<longrightarrow>
      process_image env p out w =
        (Inr op, (snd (mkdir env out w))\<lparr>files := (files w)(op \<mapsto> Picture t)\<rparr>) \<and>
      process_image_v2 env p out w =
        (Inr op, (snd (mkdir env out w))
           \<lparr>files := (files w)(op \<mapsto>
              Picture (case getbbox t of Some box \<Rightarrow> crop t box | None \<Rightarrow> t))\<rparr>)) \<and>
   (fst (process_image env p out w) = Inr op1 \<longrightarrow>
      op1 = out @ [stem p @ ''_nobg.png''] \<and>
      (\<exists>im1 t1. files w p = Some (Picture im1) \<and> rembg_remove env im1 = Some t1 \<and>
         files (snd (process_image env p out w)) = (files w)(op1 \<mapsto> Picture t1))) \<and>
   (fst (process_image_v2 env p out w) = Inr op2 \<longrightarrow>
      op2 = out @ [stem p @ ''_nobg.png''] \<and>
      (\<exists>im2 t2. files w p = Some (Picture im2) \<and> rembg_remove env im2 = Some t2 \<and>
         files (snd (process_image_v2 env p out w)) =
           (files w)(op2 \<mapsto>
              Picture (case getbbox t2 of Some box \<Rightarrow> crop t2 box | None \<Rightarrow> t2)))) \<and>
   (base \<noteq> [] \<and> ext \<noteq> [] \<and> CHR ''.'' \<notin> set ext \<longrightarrow>
      stem (dir @ [base @ CHR ''.'' # ext]) @ ''_nobg.png'' = base @ ''_nobg.png'')"
proof -
  have a: "process_image env p out w =
        (Inr op, (snd (mkdir env out w))\<lparr>files := (files w)(op \<mapsto> Picture t)\<rparr>) \<and>
      process_image_v2 env p out w =
        (Inr op, (snd (mkdir env out w))
           \<lparr>files := (files w)(op \<mapsto>
              Picture (case getbbox t of Some box \<Rightarrow> crop t box | None \<Rightarrow> t))\<rparr>)"
    if "fst (mkdir env out w) = None \<and> files w p = Some (Picture im) \<and>
      rembg_remove env im = Some t \<and> op = out @ [stem p @ ''_nobg.png''] \<and>
      op \<notin> dirs (snd (mkdir env out w)) \<and> may_write env op"
    using that process_image_writes [of env out w p im t op]
      process_image_v2_writes [of env out w p im t op] by blast
  have b: "op1 = out @ [stem p @ ''_nobg.png''] \<and>
      (\<exists>im1 t1. files w p = Some (Picture im1) \<and> rembg_remove env im1 = Some t1 \<and>
         files (snd (process_image env p out w)) = (files w)(op1 \<mapsto> Picture t1))"
    if s: "fst (process_image env p out w) = Inr op1"
  proof -
    from process_image_inv [OF s] obtain im1 t1
      where o: "open_rgba (snd (mkdir env out w)) p = Inr im1"
        and r: "rembg_remove env im1 = Some t1"
        and n: "op1 = out @ [stem p @ ''_nobg.png'']"
        and v: "save env t1 op1 (snd (mkdir env out w)) = Inr (snd (process_image env p out w))"
      by blast
    from open_rgba_Inr [OF o] have "files w p = Some (Picture im1)"
      by (simp add: mkdir_files)
    moreover from save_files [OF v]
    have "files (snd (process_image env p out w)) = (files w)(op1 \<mapsto> Picture t1)"
      by (simp add: mkdir_files)
    ultimately show ?thesis using r n by blast
  qed
  have c: "op2 = out @ [stem p @ ''_nobg.png''] \<and>
      (\<exists>im2 t2. files w p = Some (Picture im2) \<and> rembg_remove env im2 = Some t2 \<and>
         files (snd (process_image_v2 env p out w)) =
           (files w)(op2 \<mapsto>
              Picture (case getbbox t2 of Some box \<Rightarrow> crop t2 box | None \<Rightarrow> t2)))"
    if s: "fst (process_image_v2 env p out w) = Inr op2"
  proof -
    from process_image_v2_inv [OF s] obtain im2 t2
      where o: "open_rgba (snd (mkdir env out w)) p = Inr im2"
        and r: "rembg_remove env im2 = Some t2"
        and n: "op2 = out @ [stem p @ ''_nobg.png'']"
        and v: "save env (case getbbox t2 of Some box \<Rightarrow> crop t2 box | None \<Rightarrow> t2) op2
                  (snd (mkdir env out w)) = Inr (snd (process_image_v2 env p out w))"
      by blast
    from open_rgba_Inr [OF o] have "files w p = Some (Picture im2)"
      by (simp add: mkdir_files)
    moreover from save_files [OF v]
    have "files (snd (process_image_v2 env p out w)) =
        (files w)(op2 \<mapsto> Picture (case getbbox t2 of Some box \<Rightarrow> crop t2 box | None \<Rightarrow> t2))"
      by (simp add: mkdir_files)
    ultimately show ?thesis using r n by blast
  qed
  have d: "stem (dir @ [base @ CHR ''.'' # ext]) @ ''_nobg.png'' = base @ ''_nobg.png''"
    if "base \<noteq> [] \<and> ext \<noteq> [] \<and> CHR ''.'' \<notin> set ext"
    using that by (simp add: stem_plain)
  from a b c d show ?thesis by blast
qed

theorem output_name_and_overwrite_witness:
  "fst (mkdir env_ok [''out''] world_photo) = None \<and>
   files world_photo [''pics'', ''photo.JPEG''] = Some (Picture dot) \<and>
   rembg_remove env_ok dot = Some dot \<and>
   files world_photo [''out'', ''photo_nobg.png''] = Some Junk \<and>
   fst (process_image env_ok [''pics'', ''photo.JPEG''] [''out''] world_photo) =
     Inr [''out'', ''photo_nobg.png''] \<and>
   files (snd (process_image env_ok [''pics'', ''photo.JPEG''] [''out''] world_photo))
     [''out'', ''photo_nobg.png''] = Some (Picture dot) \<and>
   files (snd (process_image env_ok [''pics'', ''photo.JPEG''] [''out''] world_photo))
     [''pics'', ''photo.JPEG''] = Some (Picture dot) \<and>
   fst (process_image_v2 env_ok [''pics'', ''photo.JPEG''] [''out''] world_photo) =
     Inr [''out'', ''photo_nobg.png''] \<and>
   files (snd (process_image_v2 env_ok [''pics'', ''photo.JPEG''] [''out''] world_photo))
     [''out'', ''photo_nobg.png''] = Some (Picture (crop dot (1, 1, 3, 2))) \<and>
   stem ([''pics''] @ [''photo'' @ CHR ''.'' # ''JPEG'']) @ ''_nobg.png'' = ''photo'' @ ''_nobg.png''"
proof -
  let ?p = "[''pics'', ''photo.JPEG''] :: path"
  let ?op = "[''out'', ''photo_nobg.png''] :: path"
  have h1: "fst (mkdir env_ok [''out''] world_photo) = None"
    by code_simp
  have h2: "files world_photo ?p = Some (Picture dot)"
    by (simp add: world_photo_def)
  have h3: "rembg_remove env_ok dot = Some dot"
    by (simp add: env_ok_def dot_def)
  have h4: "?op = [''out''] @ [stem ?p @ ''_nobg.png'']"
    by code_simp
  have h5: "?op \<notin> dirs (snd (mkdir env_ok [''out''] world_photo))"
    by code_simp
  have h6: "may_write env_ok ?op"
    by (simp add: env_ok_def)
  have j: "files world_photo ?op = Some Junk"
    by (simp add: world_photo_def)
  have f: "''photo'' \<noteq> [] \<and> ''JPEG'' \<noteq> [] \<and> CHR ''.'' \<notin> set ''JPEG''"
    by simp
  have g: "getbbox dot = Some (1, 1, 3, 2)"
    by code_simp
  note inst = output_name_and_overwrite
    [of env_ok "[''out'']" world_photo ?p dot dot ?op _ _ "''photo''" "''JPEG''" "[''pics'']"]
  note both = inst [THEN conjunct1, THEN mp, OF conjI [OF h1 conjI [OF h2 conjI [OF h3
    conjI [OF h4 conjI [OF h5 h6]]]]]]
  note v1 = both [THEN conjunct1]
  note v2 = both [THEN conjunct2, unfolded g option.case]
  note nm = inst [THEN conjunct2, THEN conjunct2, THEN conjunct2, THEN mp, OF f]
  have c1: "fst (process_image env_ok ?p [''out''] world_photo) = Inr ?op"
    by (simp only: v1 fst_conv)
  have c2: "files (snd (process_image env_ok ?p [''out''] world_photo)) ?op = Some (Picture dot)"
    by (simp only: v1 snd_conv) simp
  have c3: "files (snd (process_image env_ok ?p [''out''] world_photo)) ?p = Some (Picture dot)"
    using h2 by (simp only: v1 snd_conv) simp
  have c4: "fst (process_image_v2 env_ok ?p [''out''] world_photo) = Inr ?op"
    by (simp only: v2 fst_conv)
  have c5: "files (snd (process_image_v2 env_ok ?p [''out''] world_photo)) ?op =
      Some (Picture (crop dot (1, 1, 3, 2)))"
    by (simp only: v2 snd_conv) simp
  from h1 h2 h3 j c1 c2 c3 c4 c5 nm show ?thesis by (intro conjI) assumption+
qed

subsection \<open>Bounding box\<close>

lemma set_visible_points:
  "set (visible_points im) = {(x, y). x < width im \<and> y < height im \<and> visible im x y}"
  by (auto simp: visible_points_def)

lemma getbbox_transparent:
  assumes "\<forall>x<width im. \<forall>y<height im. \<not> visible im x y"
  shows "getbbox im = None"
proof -
  from assms have "set (visible_points im) = {}"
    by (auto simp: set_visible_points)
  then show ?thesis
    by (simp add: getbbox_def)
qed

lemma getbbox_occupies:
  assumes "occupies im (l, u, r, d)"
  shows "getbbox im = Some (l, u, r, d)"
proof -
  let ?S = "set (visible_points im)"
  from assms have lr: "l < r" "r \<le> width im" and ud: "u < d" "d \<le> height im"
    and inside: "\<And>x y. (x, y) \<in> ?S \<Longrightarrow> l \<le> x \<and> x < r \<and> u \<le> y \<and> y < d"
    and left: "\<exists>y. (l, y) \<in> ?S" and right: "\<exists>y. (r - 1, y) \<in> ?S"
    and top: "\<exists>x. (x, u) \<in> ?S" and bottom: "\<exists>x. (x, d - 1) \<in> ?S"
    by (auto simp: occupies_def set_visible_points)
  from left have ne: "visible_points im \<noteq> []"
    by auto
  have "Min (fst ` ?S) = l"
  proof (rule Min_eqI)
    show "finite (fst ` ?S)" by simp
    show "l \<le> x" if "x \<in> fst ` ?S" for x using that inside by auto
    show "l \<in> fst ` ?S" using left by force
  qed
  moreover have "Min (snd ` ?S) = u"
  proof (rule Min_eqI)
    show "finite (snd ` ?S)" by simp
    show "u \<le> y" if "y \<in> snd ` ?S" for y using that inside by auto
    show "u \<in> snd ` ?S" using top by force
  qed
  moreover have "Max (fst ` ?S) = r - 1"
  proof (rule Max_eqI)
    show "finite (fst ` ?S)" by simp
    show "x \<le> r - 1" if "x \<in> fst ` ?S" for x using that inside by fastforce
    show "r - 1 \<in> fst ` ?S" using right by force
  qed
  moreover have "Max (snd ` ?S) = d - 1"
  proof (rule Max_eqI)
    show "finite (snd ` ?S)" by simp
    show "y \<le> d - 1" if "y \<in> snd ` ?S" for y using that inside by fastforce
    show "d - 1 \<in> snd ` ?S" using bottom by force
  qed
  ultimately show ?thesis
    using ne lr ud by (simp add: getbbox_def Let_def)
qed

text \<open>
  C5. Let an item succeed, and let \<open>t\<close> be the image the transform returns for it.
  \<^verbatim>\<open>src/noback.py\<close>, which does not crop, writes \<open>t\<close> as it is, on its whole canvas. When
  the pixels of \<open>t\<close> that are not fully transparent occupy the box \<open>(l, u, r, d)\<close>,
  \<^verbatim>\<open>Version 0002\<close>, which crops, writes an image of the size of the box, \<open>r - l\<close> by
  \<open>d - u\<close>; when every pixel of \<open>t\<close> is fully transparent it writes \<open>t\<close> as it is.
\<close>

theorem cropping_policy:
  assumes "fst (process_image env p out w) = Inr op"
    and "fst (process_image_v2 env p out w) = Inr op2"
    and "files w p = Some (Picture im)" and "rembg_remove env im = Some t"
  shows "files (snd (process_image env p out w)) op = Some (Picture t) \<and>
         (occupies t (l, u, r, d) \<longrightarrow>
            (\<exists>c. files (snd (process_image_v2 env p out w)) op2 = Some (Picture c) \<and>
                 width c = r - l \<and> height c = d - u)) \<and>
         ((\<forall>x<width t. \<forall>y<height t. \<not> visible t x y) \<longrightarrow>
            files (snd (process_image_v2 env p out w)) op2 = Some (Picture t))"
proof -
  note opened = open_rgba_after_mkdir [OF assms(3), of env out]
  from process_image_inv [OF assms(1)] obtain im1 t1
    where o1: "open_rgba (snd (mkdir env out w)) p = Inr im1"
      and r1: "rembg_remove env im1 = Some t1"
      and s1: "save env t1 op (snd (mkdir env out w)) = Inr (snd (process_image env p out w))"
    by blast
  from opened o1 have "im1 = im" by simp
  with r1 assms(4) have "t1 = t" by simp
  with save_files [OF s1] have plain: "files (snd (process_image env p out w)) op = Some (Picture t)"
    by simp
  from process_image_v2_inv [OF assms(2)] obtain im2 t2
    where o2: "open_rgba (snd (mkdir env out w)) p = Inr im2"
      and r2: "rembg_remove env im2 = Some t2"
      and s2: "save env (case getbbox t2 of Some box \<Rightarrow> crop t2 box | None \<Rightarrow> t2) op2
                 (snd (mkdir env out w)) = Inr (snd (process_image_v2 env p out w))"
    by blast
  from opened o2 have "im2 = im" by simp
  with r2 assms(4) have t2: "t2 = t" by simp
  from save_files [OF s2 [unfolded t2]]
  have written: "files (snd (process_image_v2 env p out w)) op2 =
      Some (Picture (case getbbox t of Some box \<Rightarrow> crop t box | None \<Rightarrow> t))"
    by simp
  have cropped: "\<exists>c. files (snd (process_image_v2 env p out w)) op2 = Some (Picture c) \<and>
                 width c = r - l \<and> height c = d - u" if "occupies t (l, u, r, d)"
    using written getbbox_occupies [OF that] by (simp add: crop_def)
  have kept: "files (snd (process_image_v2 env p out w)) op2 = Some (Picture t)"
    if "\<forall>x<width t. \<forall>y<height t. \<not> visible t x y"
    using written getbbox_transparent [OF that] by simp
  from plain cropped kept show ?thesis by blast
qed

lemma occupies_dot: "occupies dot (1, 1, 3, 2)"
proof -
  have v: "visible dot x y \<longleftrightarrow> (x = 1 \<or> x = 2) \<and> y = 1" for x y
    by (simp add: visible_def dot_def alpha_def)
  have s: "width dot = 4" "height dot = 3"
    by (simp_all add: dot_def)
  have "\<exists>y<height dot. visible dot 1 y"
    by (rule exI [of _ 1]) (simp add: v s)
  moreover have "\<exists>y<height dot. visible dot (3 - 1) y"
    by (rule exI [of _ 1]) (simp add: v s)
  moreover have "\<exists>x<width dot. visible dot x 1"
    by (rule exI [of _ 1]) (simp add: v s)
  moreover have "\<exists>x<width dot. visible dot x (2 - 1)"
    by (rule exI [of _ 1]) (simp add: v s)
  moreover have "\<forall>x<width dot. \<forall>y<height dot.
      visible dot x y \<longrightarrow> 1 \<le> x \<and> x < 3 \<and> 1 \<le> y \<and> y < 2"
    unfolding v by auto
  ultimately show ?thesis
    unfolding occupies_def by (simp add: s)
qed

theorem cropping_policy_witness:
  "fst (process_image env_ok [''in'', ''a.jpg''] [''out''] world3) = Inr [''out'', ''a_nobg.png''] \<and>
   fst (process_image_v2 env_ok [''in'', ''a.jpg''] [''out''] world3) = Inr [''out'', ''a_nobg.png''] \<and>
   files world3 [''in'', ''a.jpg''] = Some (Picture dot) \<and> rembg_remove env_ok dot = Some dot \<and>
   occupies dot (1, 1, 3, 2) \<and> width dot = 4 \<and> height dot = 3 \<and>
   files (snd (process_image env_ok [''in'', ''a.jpg''] [''out''] world3)) [''out'', ''a_nobg.png''] =
     Some (Picture dot) \<and>
   (\<exists>c. files (snd (process_image_v2 env_ok [''in'', ''a.jpg''] [''out''] world3))
          [''out'', ''a_nobg.png''] = Some (Picture c) \<and> width c = 3 - 1 \<and> height c = 2 - 1) \<and>
   files world3 [''in'', ''a.png''] = Some (Picture blank) \<and>
   files (snd (process_image_v2 env_ok [''in'', ''a.png''] [''out''] world3)) [''out'', ''a_nobg.png''] =
     Some (Picture blank)"
proof -
  have h1: "fst (process_image env_ok [''in'', ''a.jpg''] [''out''] world3) =
      Inr [''out'', ''a_nobg.png'']"
    by code_simp
  have h2: "fst (process_image_v2 env_ok [''in'', ''a.jpg''] [''out''] world3) =
      Inr [''out'', ''a_nobg.png'']"
    by code_simp
  have h3: "files world3 [''in'', ''a.jpg''] = Some (Picture dot)"
    by (simp add: world3_def)
  have h4: "rembg_remove env_ok dot = Some dot"
    by (simp add: env_ok_def dot_def)
  have k1: "fst (process_image env_ok [''in'', ''a.png''] [''out''] world3) =
      Inr [''out'', ''a_nobg.png'']"
    by code_simp
  have k2: "fst (process_image_v2 env_ok [''in'', ''a.png''] [''out''] world3) =
      Inr [''out'', ''a_nobg.png'']"
    by code_simp
  have k3: "files world3 [''in'', ''a.png''] = Some (Picture blank)"
    by (simp add: world3_def)
  have k4: "rembg_remove env_ok blank = Some blank"
    by (simp add: env_ok_def blank_def)
  have k5: "\<forall>x<width blank. \<forall>y<height blank. \<not> visible blank x y"
    by (simp add: visible_def blank_def alpha_def)
  have s: "width dot = 4" "height dot = 3"
    by (simp_all add: dot_def)
  note a = cropping_policy [OF h1 h2 h3 h4, of 1 1 3 2]
  note b = cropping_policy [OF k1 k2 k3 k4, of 0 0 0 0]
  note c1 = a [THEN conjunct1]
  note c2 = a [THEN conjunct2, THEN conjunct1, THEN mp, OF occupies_dot]
  note c3 = b [THEN conjunct2, THEN conjunct2, THEN mp, OF k5]
  from h1 h2 h3 h4 occupies_dot s c1 c2 k3 c3 show ?thesis by (intro conjI) assumption+
qed

subsection \<open>Files written by a run\<close>











end
